theory Spec2Isabelle
  imports Main "HOL-Library.Finite_Map"
begin

section \<open>Simplices and simplicial complexes\<close>

text \<open>
  The classes \<open>Simplex\<close> and \<open>SimplicialComplex\<close> and the header
  \<open>Intersections.hh\<close> are used by \<open>Spine.hh\<close> but are not part of the sources at hand.
  They are modelled from the specification (section 3, "Data model", and section 6,
  "External interfaces"): a simplex is identified by its vertex set alone, its boundary is
  the collection of its codimension-1 subsets, enumerated in a fixed order, and a complex
  is an ordered collection of distinct simplices with an unchecked removal.

  A simplex is represented by the vertices as the class stores them, the largest first.
  The empty list is the default-constructed simplex \<open>Simplex()\<close>, which \<open>Spine.hh\<close>
  uses for "no simplex".
\<close>

type_synonym vertex = nat
type_synonym simplex = "vertex list"
type_synonym complex = "simplex list"

text \<open>
  Modelled from the spec: the constructor of \<open>Simplex\<close> is missing from the sources.
  Identity is by vertex set, so the vertices are stored without repetition in one
  canonical order (descending).
\<close>

definition mk_simplex :: "vertex list \<Rightarrow> simplex" where
  "mk_simplex vs = rev (sort (remdups vs))"

text \<open>
  Modelled from the spec: \<open>Simplex::dimension\<close> is missing from the sources;
  "Dimension = |vertices| - 1". A simplex of a complex is never empty; for the empty
  list the subtraction below stops at \<open>0\<close>, and nothing is claimed about that case.
\<close>

definition dimension :: "simplex \<Rightarrow> nat" where
  "dimension s = length s - 1"

text \<open>
  Modelled from the spec: \<open>begin_boundary\<close>/\<open>end_boundary\<close> are missing from the
  sources; "Boundary(s) = the set of its codimension-1 subsets", enumerated in a fixed
  deterministic order. The face at position \<open>i\<close> leaves out the vertex stored at
  position \<open>i\<close>; with the largest vertex stored first, the faces appear in
  lexicographically increasing order, which is the order the comment in
  \<open>dumb::isAdmissible\<close> refers to ("prefers the lexicographically smallest one").
  A vertex has no boundary face (a simplex is never empty).
\<close>

fun omit_each :: "vertex list \<Rightarrow> simplex list" where
  "omit_each [] = []"
| "omit_each (v # vs) = vs # map ((#) v) (omit_each vs)"

definition boundary :: "simplex \<Rightarrow> simplex list" where
  "boundary s = (if length s \<le> 1 then [] else omit_each s)"

text \<open>
  Modelled from the spec: \<open>SimplicialComplex::remove_without_validation\<close> is missing
  from the sources; it is the "unchecked removal operation that does not re-validate
  closure". The member equal to \<open>s\<close> is erased, and nothing else happens.
\<close>

definition remove_without_validation :: "simplex \<Rightarrow> complex \<Rightarrow> complex" where
  "remove_without_validation s K = remove1 s K"

text \<open>A complex is closed when every boundary face of a member is a member.\<close>

definition face_closed :: "complex \<Rightarrow> bool" where
  "face_closed K \<longleftrightarrow> (\<forall>s \<in> set K. \<forall>f \<in> set (boundary s). f \<in> set K)"

section \<open>The map of admissible pairs\<close>

text \<open>
  \<open>std::unordered_map<Simplex, Simplex>\<close> is modelled by the list of its entries in
  the order of their insertion. \<open>insert\<close> leaves the map as it is when the key is
  present, \<open>erase\<close> drops the entry of a key. The position of \<open>begin()\<close> is left
  unspecified by the language; it is a parameter here, a policy that names an index into
  the entries, so that every result below holds for each such policy.
\<close>

type_synonym admissible_map = "(simplex \<times> simplex) list"
type_synonym policy = "admissible_map \<Rightarrow> nat"

definition adm_insert :: "simplex \<times> simplex \<Rightarrow> admissible_map \<Rightarrow> admissible_map" where
  "adm_insert p adm = (if fst p \<in> fst ` set adm then adm else adm @ [p])"

definition adm_erase :: "simplex \<Rightarrow> admissible_map \<Rightarrow> admissible_map" where
  "adm_erase s adm = filter (\<lambda>p. fst p \<noteq> s) adm"

definition adm_begin :: "policy \<Rightarrow> admissible_map \<Rightarrow> simplex \<times> simplex" where
  "adm_begin sel adm = adm ! (sel adm mod length adm)"

text \<open>The policy that takes the entry inserted first.\<close>

definition oldest_first :: policy where
  "oldest_first adm = 0"

text \<open>The policy that takes the entry inserted last.\<close>

definition newest_first :: policy where
  "newest_first adm = length adm - 1"

section \<open>The coface map\<close>

text \<open>
  \<open>CofaceMap\<close> is \<open>std::unordered_map<Simplex, std::unordered_set<Simplex>>\<close>: a
  finite map to sets. \<open>cofaces.at(k)\<close> throws \<open>std::out_of_range\<close> for a missing
  key, which is the only error of this code.
\<close>

datatype error = OutOfRange

type_synonym coface_map = "(simplex, simplex set) fmap"

definition coface_at :: "coface_map \<Rightarrow> simplex \<Rightarrow> error + simplex set" where
  "coface_at cofaces k = (case fmlookup cofaces k of None \<Rightarrow> Inl OutOfRange | Some cs \<Rightarrow> Inr cs)"

text \<open>\<open>cofaces[f].insert(s)\<close>: \<open>operator[]\<close> creates an empty entry for a missing key.\<close>

definition add_coface :: "simplex \<Rightarrow> coface_map \<Rightarrow> simplex \<Rightarrow> coface_map" where
  "add_coface s cofaces f =
     fmupd f (insert s (case fmlookup cofaces f of None \<Rightarrow> {} | Some cs \<Rightarrow> cs)) cofaces"

definition build_step :: "coface_map \<Rightarrow> simplex \<Rightarrow> coface_map" where
  "build_step cofaces s =
     foldl (add_coface s)
       (if fmlookup cofaces s = None then fmupd s {} cofaces else cofaces)
       (boundary s)"

definition buildCofaceMap :: "complex \<Rightarrow> coface_map" where
  "buildCofaceMap K = foldl build_step fmempty K"

definition isPrincipal :: "coface_map \<Rightarrow> simplex \<Rightarrow> error + bool" where
  "isPrincipal cofaces s =
     (case coface_at cofaces s of Inl e \<Rightarrow> Inl e | Inr cs \<Rightarrow> Inr (cs = {}))"

text \<open>The loop of \<open>getFreeFace\<close> over the boundary faces that are still to be visited.\<close>

fun scan_faces :: "coface_map \<Rightarrow> simplex \<Rightarrow> simplex list \<Rightarrow> error + simplex" where
  "scan_faces cofaces s [] = Inr []"
| "scan_faces cofaces s (f # fs) =
     (case coface_at cofaces f of
        Inl e \<Rightarrow> Inl e
      | Inr allCofaces \<Rightarrow>
          if card allCofaces = 1 \<and> s \<in> allCofaces then Inr f
          else scan_faces cofaces s fs)"

definition getFreeFace :: "coface_map \<Rightarrow> simplex \<Rightarrow> error + simplex" where
  "getFreeFace cofaces s =
     (case isPrincipal cofaces s of
        Inl e \<Rightarrow> Inl e
      | Inr is_principal \<Rightarrow> if \<not> is_principal then Inr [] else scan_faces cofaces s (boundary s))"

text \<open>
  The loop of \<open>getPrincipalFaces\<close>, and the two loops of \<open>spine\<close> that probe simplices
  again: the pair of a simplex is inserted when \<open>getFreeFace\<close> returns a simplex that is
  not empty.
\<close>

fun probe_all :: "coface_map \<Rightarrow> simplex list \<Rightarrow> admissible_map \<Rightarrow> error + admissible_map" where
  "probe_all cofaces [] adm = Inr adm"
| "probe_all cofaces (s # ss) adm =
     (case getFreeFace cofaces s of
        Inl e \<Rightarrow> Inl e
      | Inr freeFace \<Rightarrow>
          probe_all cofaces ss (if freeFace \<noteq> [] then adm_insert (s, freeFace) adm else adm))"

definition getPrincipalFaces :: "coface_map \<Rightarrow> complex \<Rightarrow> error + admissible_map" where
  "getPrincipalFaces cofaces K = probe_all cofaces K []"

section \<open>The incremental collapse\<close>

record state =
  complex_of :: complex
  cofaces_of :: coface_map
  admissible_of :: admissible_map

text \<open>The lambda \<open>removeSimplices\<close>, and \<open>std::for_each\<close> with it over a list of faces.\<close>

definition removeSimplices :: "simplex \<Rightarrow> simplex \<Rightarrow> coface_map \<Rightarrow> simplex \<Rightarrow> error + coface_map" where
  "removeSimplices s t cofaces sigma =
     (case coface_at cofaces sigma of
        Inl e \<Rightarrow> Inl e
      | Inr cs \<Rightarrow> Inr (fmupd sigma (cs - {s} - {t}) cofaces))"

fun for_each_remove :: "simplex \<Rightarrow> simplex \<Rightarrow> coface_map \<Rightarrow> simplex list \<Rightarrow> error + coface_map" where
  "for_each_remove s t cofaces [] = Inr cofaces"
| "for_each_remove s t cofaces (sigma # rest) =
     (case removeSimplices s t cofaces sigma of
        Inl e \<Rightarrow> Inl e
      | Inr cofaces' \<Rightarrow> for_each_remove s t cofaces' rest)"

text \<open>One pass through the body of the \<open>while\<close> loop of \<open>spine\<close>.\<close>

definition spine_body :: "policy \<Rightarrow> state \<Rightarrow> error + state" where
  "spine_body sel st =
     (let (s, t) = adm_begin sel (admissible_of st);
          L = remove_without_validation t (remove_without_validation s (complex_of st));
          adm = adm_erase s (admissible_of st)
      in case for_each_remove s t (cofaces_of st) (boundary s) of
           Inl e \<Rightarrow> Inl e
         | Inr cofaces1 \<Rightarrow>
       (case for_each_remove s t cofaces1 (boundary t) of
           Inl e \<Rightarrow> Inl e
         | Inr cofaces2 \<Rightarrow>
       (let cofaces = fmdrop t (fmdrop s cofaces2)
        in case probe_all cofaces (filter (\<lambda>f. t \<noteq> f) (boundary s)) adm of
           Inl e \<Rightarrow> Inl e
         | Inr adm1 \<Rightarrow>
       (case probe_all cofaces (boundary t) adm1 of
           Inl e \<Rightarrow> Inl e
         | Inr adm2 \<Rightarrow>
          if adm2 = [] then
            (case getPrincipalFaces cofaces L of
               Inl e \<Rightarrow> Inl e
             | Inr adm3 \<Rightarrow>
                 Inr \<lparr>complex_of = L, cofaces_of = cofaces, admissible_of = adm3\<rparr>)
          else Inr \<lparr>complex_of = L, cofaces_of = cofaces, admissible_of = adm2\<rparr>))))"

subsection \<open>Termination of the loop\<close>

text \<open>
  The facts the termination proof of the loop needs: a pass through the body leaves the
  keys of the coface map alone until it erases \<open>s\<close> and \<open>t\<close>, and every pair that a
  probe inserts has a key of the coface map.
\<close>

lemma adm_begin_mem: "adm \<noteq> [] \<Longrightarrow> adm_begin sel adm \<in> set adm"
  by (simp add: adm_begin_def)

lemma coface_at_Inr: "coface_at cf k = Inr cs \<longleftrightarrow> fmlookup cf k = Some cs"
  by (simp add: coface_at_def split: option.splits)

lemma coface_at_Inl: "coface_at cf k = Inl e \<longleftrightarrow> fmlookup cf k = None"
  by (cases e) (simp add: coface_at_def split: option.splits)

lemma removeSimplices_dom:
  "removeSimplices s t cf sigma = Inr cf' \<Longrightarrow> fmdom' cf' = fmdom' cf"
  by (auto simp: removeSimplices_def coface_at_def split: option.splits sum.splits
      intro: fmdom'I)

lemma for_each_remove_dom:
  "for_each_remove s t cf fs = Inr cf' \<Longrightarrow> fmdom' cf' = fmdom' cf"
proof (induction fs arbitrary: cf)
  case Nil
  then show ?case by simp
next
  case (Cons f fs)
  then show ?case
    by (auto split: sum.splits dest: removeSimplices_dom)
qed

lemma getFreeFace_key:
  "getFreeFace cf s = Inr g \<Longrightarrow> s \<in> fmdom' cf"
  by (auto simp: getFreeFace_def isPrincipal_def coface_at_def
      split: sum.splits option.splits intro: fmdom'I)

text \<open>
  The entries of the admissible map whose key has no entry in the coface map. Their
  number is the second component of the measure under which the loop terminates.
\<close>

definition stale :: "coface_map \<Rightarrow> admissible_map \<Rightarrow> nat" where
  "stale cf adm = length (filter (\<lambda>p. fst p \<notin> fmdom' cf) adm)"

lemma stale_adm_insert:
  "fst p \<in> fmdom' cf \<Longrightarrow> stale cf (adm_insert p adm) = stale cf adm"
  by (simp add: stale_def adm_insert_def)

lemma probe_all_stale:
  "probe_all cf fs adm = Inr adm' \<Longrightarrow> stale cf adm' = stale cf adm"
proof (induction fs arbitrary: adm)
  case Nil
  then show ?case by simp
next
  case (Cons f fs)
  then show ?case
    by (auto split: sum.splits if_splits simp: stale_adm_insert dest!: getFreeFace_key)
qed

lemma spine_body_InrE:
  assumes "spine_body sel st = Inr st'"
  obtains s t cf1 cf2 adm1 adm2 where
    "adm_begin sel (admissible_of st) = (s, t)"
    "for_each_remove s t (cofaces_of st) (boundary s) = Inr cf1"
    "for_each_remove s t cf1 (boundary t) = Inr cf2"
    "cofaces_of st' = fmdrop t (fmdrop s cf2)"
    "complex_of st' =
       remove_without_validation t (remove_without_validation s (complex_of st))"
    "probe_all (cofaces_of st') (filter (\<lambda>f. t \<noteq> f) (boundary s))
       (adm_erase s (admissible_of st)) = Inr adm1"
    "probe_all (cofaces_of st') (boundary t) adm1 = Inr adm2"
    "if adm2 = [] then getPrincipalFaces (cofaces_of st') (complex_of st') = Inr (admissible_of st')
     else admissible_of st' = adm2"
  using assms
  unfolding spine_body_def Let_def
  by (auto split: prod.splits sum.splits if_splits)

lemma spine_body_decreases:
  assumes ne: "admissible_of st \<noteq> []" and body: "spine_body sel st = Inr st'"
  shows "card (fmdom' (cofaces_of st')) < card (fmdom' (cofaces_of st)) \<or>
         (card (fmdom' (cofaces_of st')) = card (fmdom' (cofaces_of st)) \<and>
          stale (cofaces_of st') (admissible_of st') < stale (cofaces_of st) (admissible_of st))"
proof -
  from body obtain s t cf1 cf2 adm1 adm2 where
    sel: "adm_begin sel (admissible_of st) = (s, t)" and
    r1: "for_each_remove s t (cofaces_of st) (boundary s) = Inr cf1" and
    r2: "for_each_remove s t cf1 (boundary t) = Inr cf2" and
    cf: "cofaces_of st' = fmdrop t (fmdrop s cf2)" and
    p1: "probe_all (cofaces_of st') (filter (\<lambda>f. t \<noteq> f) (boundary s))
           (adm_erase s (admissible_of st)) = Inr adm1" and
    p2: "probe_all (cofaces_of st') (boundary t) adm1 = Inr adm2" and
    fin: "if adm2 = [] then getPrincipalFaces (cofaces_of st') (complex_of st') = Inr (admissible_of st')
          else admissible_of st' = adm2"
    by (rule spine_body_InrE)
  let ?D = "fmdom' (cofaces_of st)"
  have dom: "fmdom' (cofaces_of st') = ?D - {s, t}"
    using for_each_remove_dom[OF r1] for_each_remove_dom[OF r2] by (auto simp: cf)
  have mem: "(s, t) \<in> set (admissible_of st)"
    using adm_begin_mem[OF ne, of sel] sel by simp
  show ?thesis
  proof (cases "s \<in> ?D \<or> t \<in> ?D")
    case True
    then have "fmdom' (cofaces_of st') \<subset> ?D" using dom by auto
    then show ?thesis by (simp add: psubset_card_mono)
  next
    case False
    then have same: "fmdom' (cofaces_of st') = ?D" using dom by auto
    have less: "stale (cofaces_of st') (adm_erase s (admissible_of st))
                  < stale (cofaces_of st) (admissible_of st)"
    proof -
      have "filter (\<lambda>p. fst p \<notin> ?D) (adm_erase s (admissible_of st))
              = filter (\<lambda>p. fst p \<noteq> s) (filter (\<lambda>p. fst p \<notin> ?D) (admissible_of st))"
        by (simp add: adm_erase_def conj_commute)
      moreover have "(s, t) \<in> set (filter (\<lambda>p. fst p \<notin> ?D) (admissible_of st))"
        using mem False by simp
      ultimately show ?thesis
        unfolding stale_def same
        by (metis (mono_tags, lifting) fst_conv length_filter_less)
    qed
    have "stale (cofaces_of st') adm2 = stale (cofaces_of st') (adm_erase s (admissible_of st))"
      using probe_all_stale[OF p1] probe_all_stale[OF p2] by simp
    moreover have "stale (cofaces_of st') (admissible_of st') \<le> stale (cofaces_of st') adm2"
    proof (cases "adm2 = []")
      case True
      with fin have "probe_all (cofaces_of st') (complex_of st') [] = Inr (admissible_of st')"
        by (simp add: getPrincipalFaces_def)
      from probe_all_stale[OF this] show ?thesis by (simp add: stale_def)
    next
      case False
      with fin show ?thesis by simp
    qed
    ultimately show ?thesis using less same by simp
  qed
qed

text \<open>
  The \<open>while\<close> loop of \<open>spine\<close>. It terminates from every state, also from one
  that no run reaches: a pass either throws, or erases a key of the coface map, or leaves
  the coface map as it is and drops an entry of the admissible map whose key the coface
  map does not have (the passes never add such an entry).
\<close>

function spine_loop :: "policy \<Rightarrow> state \<Rightarrow> error + complex" where
  "spine_loop sel st =
     (if admissible_of st = [] then Inr (complex_of st)
      else case spine_body sel st of
             Inl e \<Rightarrow> Inl e
           | Inr st' \<Rightarrow> spine_loop sel st')"
  by pat_completeness auto
termination
proof (relation "measures [\<lambda>(sel, st). card (fmdom' (cofaces_of st)),
                           \<lambda>(sel, st). stale (cofaces_of st) (admissible_of st)]")
  show "wf (measures [\<lambda>(sel, st). card (fmdom' (cofaces_of st)),
                           \<lambda>(sel, st). stale (cofaces_of st) (admissible_of st)])" by simp
next
  fix sel st st'
  assume "admissible_of st \<noteq> []" "spine_body sel st = Inr st'"
  from spine_body_decreases[OF this]
  show "((sel, st'), (sel, st)) \<in> measures [\<lambda>(sel, st). card (fmdom' (cofaces_of st)),
                           \<lambda>(sel, st). stale (cofaces_of st) (admissible_of st)]"
    by auto
qed

definition spine :: "policy \<Rightarrow> complex \<Rightarrow> error + complex" where
  "spine sel K =
     (let L = K;
          cofaces = buildCofaceMap L
      in case getPrincipalFaces cofaces L of
           Inl e \<Rightarrow> Inl e
         | Inr admissible \<Rightarrow>
             spine_loop sel \<lparr>complex_of = L, cofaces_of = cofaces, admissible_of = admissible\<rparr>)"

section \<open>The naive reducer\<close>

text \<open>
  \<open>dumb::principalFaces\<close> and \<open>dumb::spine\<close>. The complex \<open>M\<close> of the source is
  assigned \<open>L\<close> before it is used, so that every test runs over the whole of \<open>L\<close>.
  Nothing here reads the coface map, and nothing throws.
\<close>

text \<open>
  Modelled from the spec: \<open>intersect\<close> of \<open>Intersections.hh\<close> is missing from the
  sources. It returns the simplex of the common vertices; the test
  \<open>intersect(face, simplex) == face\<close> holds when "some other member fully contains that
  face" (section 4.4).
\<close>

definition intersect :: "simplex \<Rightarrow> simplex \<Rightarrow> simplex" where
  "intersect s t = filter (\<lambda>v. v \<in> set t) s"

text \<open>
  The inner loops of step 1: the scan of \<open>M\<close> for another simplex one dimension up that
  contains the face, and the scan of the boundary of \<open>it\<close> that stops at the first face
  for which the former finds nothing.
\<close>

definition is_face_of_other :: "complex \<Rightarrow> simplex \<Rightarrow> simplex \<Rightarrow> bool" where
  "is_face_of_other M it face =
     list_ex (\<lambda>simplex. dimension face + 1 = dimension simplex \<and> simplex \<noteq> it \<and>
                intersect face simplex = face) M"

fun first_free_face :: "complex \<Rightarrow> simplex \<Rightarrow> simplex list \<Rightarrow> simplex option" where
  "first_free_face M it [] = None"
| "first_free_face M it (face # faces) =
     (if \<not> is_face_of_other M it face then Some face else first_free_face M it faces)"

fun free_face_step :: "complex \<Rightarrow> simplex list \<Rightarrow> admissible_map \<Rightarrow> admissible_map" where
  "free_face_step M [] adm = adm"
| "free_face_step M (it # rest) adm =
     (if dimension it = 0 then free_face_step M rest adm
      else case first_free_face M it (boundary it) of
             None \<Rightarrow> free_face_step M rest adm
           | Some freeFace \<Rightarrow> free_face_step M rest (adm_insert (it, freeFace) adm))"

text \<open>Step 2 erases every key that is a boundary face of a member.\<close>

definition erase_faces :: "admissible_map \<Rightarrow> simplex \<Rightarrow> admissible_map" where
  "erase_faces adm s = foldl (\<lambda>adm face. adm_erase face adm) adm (boundary s)"

definition dumb_principalFaces :: "complex \<Rightarrow> admissible_map" where
  "dumb_principalFaces K = (let L = K in foldl erase_faces (free_face_step L L []) L)"

text \<open>
  What an entry of the result says; the loop of \<open>dumb::spine\<close> terminates because the
  key of every entry is a member.
\<close>

lemma first_free_face_Some:
  "first_free_face M it fs = Some t \<Longrightarrow> t \<in> set fs \<and> \<not> is_face_of_other M it t"
  by (induction fs) (auto split: if_splits)

lemma first_free_face_None:
  "first_free_face M it fs = None \<longleftrightarrow> (\<forall>t \<in> set fs. is_face_of_other M it t)"
  by (induction fs) auto

lemma free_face_step_sound:
  "p \<in> set (free_face_step M its adm) \<Longrightarrow>
     p \<in> set adm \<or>
     (fst p \<in> set its \<and> dimension (fst p) \<noteq> 0 \<and>
      first_free_face M (fst p) (boundary (fst p)) = Some (snd p))"
proof (induction its arbitrary: adm)
  case Nil
  then show ?case by simp
next
  case (Cons it rest)
  show ?case
  proof (cases "dimension it = 0")
    case True
    with Cons show ?thesis by auto
  next
    case False
    show ?thesis
    proof (cases "first_free_face M it (boundary it)")
      case None
      with False Cons show ?thesis by auto
    next
      case (Some f)
      with False Cons.prems have "p \<in> set (free_face_step M rest (adm_insert (it, f) adm))"
        by simp
      from Cons.IH[OF this] have "p \<in> set (adm_insert (it, f) adm) \<or>
        fst p \<in> set rest \<and> dimension (fst p) \<noteq> 0 \<and>
        first_free_face M (fst p) (boundary (fst p)) = Some (snd p)" .
      moreover have "p \<in> set (adm_insert (it, f) adm) \<Longrightarrow> p \<in> set adm \<or> p = (it, f)"
        by (auto simp: adm_insert_def split: if_splits)
      ultimately show ?thesis using False Some by auto
    qed
  qed
qed

lemma erase_faces_set:
  "set (erase_faces adm s) = {p \<in> set adm. fst p \<notin> set (boundary s)}"
proof -
  have "set (foldl (\<lambda>adm face. adm_erase face adm) adm fs) = {p \<in> set adm. fst p \<notin> set fs}" for fs
    by (induction fs arbitrary: adm) (auto simp: adm_erase_def)
  then show ?thesis by (simp add: erase_faces_def)
qed

lemma erase_all_set:
  "set (foldl erase_faces adm K) = {p \<in> set adm. \<forall>s \<in> set K. fst p \<notin> set (boundary s)}"
  by (induction K arbitrary: adm) (auto simp: erase_faces_set)

lemma dumb_principalFaces_sound:
  assumes "(s, t) \<in> set (dumb_principalFaces L)"
  shows "s \<in> set L \<and> t \<in> set (boundary s) \<and> \<not> is_face_of_other L s t \<and>
         (\<forall>x \<in> set L. s \<notin> set (boundary x))"
proof -
  from assms have a: "(s, t) \<in> set (free_face_step L L [])"
    and b: "\<forall>x \<in> set L. s \<notin> set (boundary x)"
    by (auto simp: dumb_principalFaces_def erase_all_set)
  from free_face_step_sound[OF a] have "s \<in> set L" "first_free_face L s (boundary s) = Some t"
    by simp_all
  with first_free_face_Some[of L s "boundary s" t] b show ?thesis by simp
qed

lemma length_remove1_le: "length (remove1 x xs) \<le> length xs"
  by (simp add: length_remove1)

lemma length_remove1_less: "x \<in> set xs \<Longrightarrow> length (remove1 x xs) < length xs"
  using length_pos_if_in_set[of x xs] by (simp add: length_remove1)

text \<open>
  The loop of \<open>dumb::spine\<close>, with the admissible map computed before the loop and again
  at the end of each pass.
\<close>

function dumb_spine_loop :: "policy \<Rightarrow> complex \<Rightarrow> admissible_map \<Rightarrow> complex" where
  "dumb_spine_loop sel L admissible =
     (if admissible = [] then L
      else (let s = fst (adm_begin sel admissible);
                t = snd (adm_begin sel admissible);
                L' = remove_without_validation t (remove_without_validation s L)
            in dumb_spine_loop sel L' (dumb_principalFaces L')))"
  by pat_completeness auto
termination
proof (relation "measure (\<lambda>(sel, L, adm). if adm = dumb_principalFaces L then 2 * length L else 2 * length L + 1)")
  show "wf (measure (\<lambda>(sel, L, adm). if adm = dumb_principalFaces L then 2 * length L else 2 * length L + 1))"
    by simp
next
  fix sel :: policy and L :: complex and admissible :: admissible_map and s t L'
  assume ne: "admissible \<noteq> []" and s: "s = fst (adm_begin sel admissible)"
    and t: "t = snd (adm_begin sel admissible)"
    and L': "L' = remove_without_validation t (remove_without_validation s L)"
  have le: "length L' \<le> length L"
    unfolding L' remove_without_validation_def
    using length_remove1_le[of t "remove1 s L"] length_remove1_le[of s L] by simp
  have "admissible = dumb_principalFaces L \<Longrightarrow> length L' < length L"
  proof -
    assume eq: "admissible = dumb_principalFaces L"
    have "(s, t) \<in> set (dumb_principalFaces L)"
      using adm_begin_mem[OF ne, of sel] s t eq by simp
    then have "s \<in> set L" using dumb_principalFaces_sound by blast
    then have "length (remove1 s L) < length L" by (rule length_remove1_less)
    moreover have "length L' \<le> length (remove1 s L)"
      unfolding L' remove_without_validation_def by (rule length_remove1_le)
    ultimately show ?thesis by simp
  qed
  with le show "((sel, L', dumb_principalFaces L'), (sel, L, admissible))
         \<in> measure (\<lambda>(sel, L, adm). if adm = dumb_principalFaces L then 2 * length L else 2 * length L + 1)"
    by auto
qed

definition dumb_spine :: "policy \<Rightarrow> complex \<Rightarrow> complex" where
  "dumb_spine sel K = (let L = K in dumb_spine_loop sel L (dumb_principalFaces L))"

section \<open>Properties of complexes and of the state of the loop\<close>

text \<open>The members of \<open>L\<close> that have \<open>s\<close> as a boundary face.\<close>

definition immediate_cofaces :: "complex \<Rightarrow> simplex \<Rightarrow> simplex set" where
  "immediate_cofaces L s = set (filter (\<lambda>x. s \<in> set (boundary x)) L)"

text \<open>
  The coface map is consistent with a complex when its keys are the members and the entry
  of each member is the set of its immediate cofaces.
\<close>

definition coface_consistent :: "complex \<Rightarrow> coface_map \<Rightarrow> bool" where
  "coface_consistent L cofaces \<longleftrightarrow>
     fmdom' cofaces = set L \<and>
     (\<forall>s \<in> set L. fmlookup cofaces s = Some (immediate_cofaces L s))"

text \<open>
  Every entry of the admissible map is a pair of members, a principal simplex and a face
  of it that has no other coface, and no key occurs twice.
\<close>

definition admissible_valid :: "complex \<Rightarrow> coface_map \<Rightarrow> admissible_map \<Rightarrow> bool" where
  "admissible_valid L cofaces adm \<longleftrightarrow>
     distinct (map fst adm) \<and>
     (\<forall>p \<in> set adm. fst p \<in> set L \<and> snd p \<in> set L \<and> snd p \<in> set (boundary (fst p)) \<and>
        fmlookup cofaces (fst p) = Some {} \<and> fmlookup cofaces (snd p) = Some {fst p})"

text \<open>The invariant of the loop of \<open>spine\<close>.\<close>

definition spine_inv :: "state \<Rightarrow> bool" where
  "spine_inv st \<longleftrightarrow>
     distinct (complex_of st) \<and> face_closed (complex_of st) \<and>
     coface_consistent (complex_of st) (cofaces_of st) \<and>
     admissible_valid (complex_of st) (cofaces_of st) (admissible_of st) \<and>
     (admissible_of st = [] \<longrightarrow>
        getPrincipalFaces (cofaces_of st) (complex_of st) = Inr [])"

text \<open>
  The states at the head of the loop in the run of \<open>spine sel K\<close>: the state built before
  the loop, and the state after each pass that does not throw.
\<close>

inductive reachable :: "policy \<Rightarrow> complex \<Rightarrow> state \<Rightarrow> bool" for sel K where
  start: "getPrincipalFaces (buildCofaceMap K) K = Inr adm \<Longrightarrow>
      reachable sel K \<lparr>complex_of = K, cofaces_of = buildCofaceMap K, admissible_of = adm\<rparr>"
| iterate: "reachable sel K st \<Longrightarrow> admissible_of st \<noteq> [] \<Longrightarrow> spine_body sel st = Inr st' \<Longrightarrow>
      reachable sel K st'"

text \<open>
  An admissible pair of a complex (section 3): a principal member and a boundary face of
  it whose only coface it is.
\<close>

definition admissible_pair :: "complex \<Rightarrow> simplex \<Rightarrow> simplex \<Rightarrow> bool" where
  "admissible_pair L s t \<longleftrightarrow>
     s \<in> set L \<and> t \<in> set (boundary s) \<and>
     immediate_cofaces L s = {} \<and> immediate_cofaces L t = {s}"

text \<open>The vertices of a simplex are stored in strictly descending order.\<close>

definition valid_simplex :: "simplex \<Rightarrow> bool" where
  "valid_simplex s \<longleftrightarrow> s \<noteq> [] \<and> sorted_wrt (\<lambda>u v. u > v) s"

text \<open>
  The complex of \<open>testTriangle\<close> in \<open>test_spine.cc\<close>, the hollow triangle, and two
  triangles that share the edge \<open>{0, 1}\<close>, with a path from \<open>0\<close> to \<open>1\<close> through the
  vertex \<open>4\<close>.
\<close>

definition triangle :: complex where
  "triangle = map mk_simplex [[0, 1, 2], [0, 1], [0, 2], [1, 2], [0], [1], [2]]"

definition hollow_triangle :: complex where
  "hollow_triangle = map mk_simplex [[0, 1], [0, 2], [1, 2], [0], [1], [2]]"

definition two_triangles :: complex where
  "two_triangles = map mk_simplex
     [[0, 1, 2], [0, 1, 3], [0, 1], [0, 2], [1, 2], [0, 3], [1, 3], [0, 4], [1, 4],
      [0], [1], [2], [3], [4]]"



text \<open>The state of \<open>spine\<close> on the triangle when the loop is entered.\<close>

definition triangle_start :: state where
  "triangle_start =
     \<lparr>complex_of = triangle, cofaces_of = buildCofaceMap triangle,
      admissible_of = [([2, 1, 0], [1, 0])]\<rparr>"

section \<open>Lemmas\<close>

subsection \<open>Boundary faces\<close>

lemma omit_each_length: "f \<in> set (omit_each s) \<Longrightarrow> length s = Suc (length f)"
  by (induction s arbitrary: f) auto

lemma boundary_length: "f \<in> set (boundary s) \<Longrightarrow> length s = Suc (length f)"
  by (auto simp: boundary_def omit_each_length split: if_splits)

lemma boundary_neq: "f \<in> set (boundary s) \<Longrightarrow> f \<noteq> s"
  by (auto dest: boundary_length)

lemma boundary_not_Nil: "f \<in> set (boundary s) \<Longrightarrow> f \<noteq> []"
  by (auto simp: boundary_def dest: omit_each_length split: if_splits)

lemma boundary_boundary_neq: "f \<in> set (boundary t) \<Longrightarrow> t \<in> set (boundary s) \<Longrightarrow> f \<noteq> s"
  by (auto dest!: boundary_length)

lemma omit_each_subset: "f \<in> set (omit_each s) \<Longrightarrow> set f \<subseteq> set s"
  by (induction s arbitrary: f) fastforce+

lemma boundary_subset: "f \<in> set (boundary s) \<Longrightarrow> set f \<subseteq> set s"
  by (auto simp: boundary_def dest: omit_each_subset split: if_splits)

lemma immediate_cofaces_iff: "x \<in> immediate_cofaces L s \<longleftrightarrow> x \<in> set L \<and> s \<in> set (boundary x)"
  by (auto simp: immediate_cofaces_def)

subsection \<open>Building the coface map\<close>

lemma add_coface_fold:
  "fmlookup (foldl (add_coface s) cf fs) x =
     (if x \<in> set fs then Some (insert s (case fmlookup cf x of None \<Rightarrow> {} | Some cs \<Rightarrow> cs))
      else fmlookup cf x)"
  by (induction fs arbitrary: cf) (auto simp: add_coface_def)

lemma build_step_lookup:
  "fmlookup (build_step cf s) x =
     (if x \<in> set (boundary s) then Some (insert s (case fmlookup cf x of None \<Rightarrow> {} | Some cs \<Rightarrow> cs))
      else if x = s then Some (case fmlookup cf x of None \<Rightarrow> {} | Some cs \<Rightarrow> cs)
      else fmlookup cf x)"
  by (auto simp: build_step_def add_coface_fold dest: boundary_neq split: option.splits)

lemma build_fold_lookup:
  "fmlookup (foldl build_step cf K) x =
     (if x \<in> set K \<or> (\<exists>y \<in> set K. x \<in> set (boundary y))
      then Some ((case fmlookup cf x of None \<Rightarrow> {} | Some cs \<Rightarrow> cs) \<union> immediate_cofaces K x)
      else fmlookup cf x)"
proof (induction K arbitrary: cf)
  case Nil
  then show ?case by simp
next
  case (Cons s K)
  show ?case
    unfolding foldl_Cons Cons.IH
    by (auto simp: build_step_lookup immediate_cofaces_def split: option.splits)
qed

lemma buildCofaceMap_lookup:
  "fmlookup (buildCofaceMap K) x =
     (if x \<in> set K \<or> (\<exists>y \<in> set K. x \<in> set (boundary y))
      then Some (immediate_cofaces K x) else None)"
  by (simp add: buildCofaceMap_def build_fold_lookup)

lemma buildCofaceMap_consistent:
  assumes "face_closed K"
  shows "coface_consistent K (buildCofaceMap K)"
proof -
  have "\<And>x. (x \<in> set K \<or> (\<exists>y \<in> set K. x \<in> set (boundary y))) \<longleftrightarrow> x \<in> set K"
    using assms by (auto simp: face_closed_def)
  then have "\<And>x. fmlookup (buildCofaceMap K) x = (if x \<in> set K then Some (immediate_cofaces K x) else None)"
    by (simp add: buildCofaceMap_lookup)
  then show ?thesis
    by (auto simp: coface_consistent_def fmlookup_dom'_iff split: if_splits)
qed

lemma coface_consistent_unique:
  assumes "coface_consistent L cf" "coface_consistent L cf'"
  shows "cf = cf'"
proof (rule fmap_ext)
  fix x
  show "fmlookup cf x = fmlookup cf' x"
  proof (cases "x \<in> set L")
    case True
    then show ?thesis using assms by (simp add: coface_consistent_def)
  next
    case False
    then have "x \<notin> fmdom' cf" "x \<notin> fmdom' cf'" using assms by (simp_all add: coface_consistent_def)
    then show ?thesis by (simp add: fmdom'_notD)
  qed
qed

subsection \<open>The free face of a simplex\<close>

lemma card_1_mem: "card A = Suc 0 \<and> s \<in> A \<longleftrightarrow> A = {s}"
  by (auto simp: card_1_singleton_iff)

lemma scan_faces_find:
  assumes "\<forall>f \<in> set fs. f \<in> fmdom' cf"
  shows "scan_faces cf s fs =
     Inr (case find (\<lambda>f. fmlookup cf f = Some {s}) fs of None \<Rightarrow> [] | Some f \<Rightarrow> f)"
  using assms
proof (induction fs)
  case Nil
  then show ?case by simp
next
  case (Cons f fs)
  then obtain cs where "fmlookup cf f = Some cs" by (auto simp: fmlookup_dom'_iff)
  with Cons show ?case
    by (auto simp: coface_at_def card_1_mem)
qed

lemma scan_faces_sound:
  "scan_faces cf s fs = Inr g \<Longrightarrow> g \<noteq> [] \<Longrightarrow> g \<in> set fs \<and> fmlookup cf g = Some {s}"
proof (induction fs)
  case Nil
  then show ?case by simp
next
  case (Cons f fs)
  then show ?case
    by (auto simp: coface_at_def card_1_mem split: option.splits if_splits)
qed

lemma getFreeFace_sound:
  assumes "getFreeFace cf s = Inr g" "g \<noteq> []"
  shows "g \<in> set (boundary s) \<and> fmlookup cf s = Some {} \<and> fmlookup cf g = Some {s}"
  using assms scan_faces_sound[of cf s "boundary s" g]
  by (auto simp: getFreeFace_def isPrincipal_def coface_at_def split: option.splits sum.splits if_splits)

lemma getFreeFace_find:
  assumes "fmlookup cf s = Some cs" "\<forall>f \<in> set (boundary s). f \<in> fmdom' cf"
  shows "getFreeFace cf s =
     Inr (if cs \<noteq> {} then []
          else case find (\<lambda>f. fmlookup cf f = Some {s}) (boundary s) of None \<Rightarrow> [] | Some f \<Rightarrow> f)"
  using assms scan_faces_find[of "boundary s" cf s]
  by (simp add: getFreeFace_def isPrincipal_def coface_at_def)

lemma getFreeFace_nonempty:
  assumes "fmlookup cf s = Some {}" "\<forall>f \<in> set (boundary s). f \<in> fmdom' cf"
    "t \<in> set (boundary s)" "fmlookup cf t = Some {s}"
  shows "\<exists>g. getFreeFace cf s = Inr g \<and> g \<noteq> []"
proof -
  from assms(3,4) obtain g where g: "find (\<lambda>f. fmlookup cf f = Some {s}) (boundary s) = Some g"
    by (cases "find (\<lambda>f. fmlookup cf f = Some {s}) (boundary s)") (auto simp: find_None_iff)
  then have "g \<in> set (boundary s)" by (auto simp: find_Some_iff)
  then have "g \<noteq> []" by (rule boundary_not_Nil)
  with g getFreeFace_find[OF assms(1,2)] show ?thesis by simp
qed

subsection \<open>Probing simplices\<close>

lemma adm_insert_valid:
  assumes "admissible_valid L cf adm" "getFreeFace cf f = Inr g" "g \<noteq> []" "fmdom' cf = set L"
  shows "admissible_valid L cf (adm_insert (f, g) adm)"
proof -
  from getFreeFace_sound[OF assms(2,3)]
  have g: "g \<in> set (boundary f)" "fmlookup cf f = Some {}" "fmlookup cf g = Some {f}" by simp_all
  then have "f \<in> set L" "g \<in> set L" using assms(4) by (auto dest: fmdom'I)
  with g assms(1) show ?thesis
    by (auto simp: admissible_valid_def adm_insert_def)
qed

lemma admissible_valid_Nil: "admissible_valid L cf []"
  by (simp add: admissible_valid_def)

lemma probe_all_valid:
  assumes "fmdom' cf = set L" "face_closed L" "set fs \<subseteq> set L" "admissible_valid L cf adm"
  shows "\<exists>adm'. probe_all cf fs adm = Inr adm' \<and> admissible_valid L cf adm' \<and> set adm \<subseteq> set adm'"
  using assms(3,4)
proof (induction fs arbitrary: adm)
  case Nil
  then show ?case by simp
next
  case (Cons f fs)
  from Cons.prems(1) have fL: "f \<in> set L" by simp
  then obtain cs where cs: "fmlookup cf f = Some cs"
    using assms(1) by (metis fmlookup_dom'_iff)
  have "\<forall>x \<in> set (boundary f). x \<in> fmdom' cf"
    using assms(1,2) fL by (auto simp: face_closed_def)
  from getFreeFace_find[OF cs this] obtain g where g: "getFreeFace cf f = Inr g" by blast
  let ?adm = "if g \<noteq> [] then adm_insert (f, g) adm else adm"
  have "admissible_valid L cf ?adm"
    using adm_insert_valid[OF Cons.prems(2) g _ assms(1)] Cons.prems(2) by simp
  moreover have "set fs \<subseteq> set L" using Cons.prems(1) by simp
  ultimately obtain adm' where "probe_all cf fs ?adm = Inr adm'" "admissible_valid L cf adm'"
    "set ?adm \<subseteq> set adm'"
    using Cons.IH by blast
  moreover have "set adm \<subseteq> set ?adm" by (auto simp: adm_insert_def)
  ultimately show ?case using g by auto
qed

lemma probe_all_keeps:
  "probe_all cf fs adm = Inr adm' \<Longrightarrow> set adm \<subseteq> set adm'"
proof (induction fs arbitrary: adm)
  case Nil
  then show ?case by simp
next
  case (Cons f fs)
  then show ?case
    by (fastforce simp: adm_insert_def split: sum.splits if_splits)
qed

lemma probe_all_finds:
  assumes "probe_all cf fs adm = Inr adm'" "s \<in> set fs" "getFreeFace cf s = Inr g" "g \<noteq> []"
  shows "adm' \<noteq> []"
  using assms(1,2)
proof (induction fs arbitrary: adm)
  case Nil
  then show ?case by simp
next
  case (Cons f fs)
  show ?case
  proof (cases "f = s")
    case True
    with Cons.prems assms(3,4) have "probe_all cf fs (adm_insert (s, g) adm) = Inr adm'" by simp
    from probe_all_keeps[OF this] have "set (adm_insert (s, g) adm) \<subseteq> set adm'" .
    moreover have "adm_insert (s, g) adm \<noteq> []" by (auto simp: adm_insert_def)
    ultimately show ?thesis by (cases "adm_insert (s, g) adm") auto
  next
    case False
    with Cons show ?thesis by (auto split: sum.splits)
  qed
qed

lemma admissible_pair_found:
  assumes cons: "coface_consistent L cf" and closed: "face_closed L"
    and pair: "s \<in> set L" "t \<in> set (boundary s)" "fmlookup cf s = Some {}" "fmlookup cf t = Some {s}"
  shows "getPrincipalFaces cf L \<noteq> Inr []"
proof
  assume empty: "getPrincipalFaces cf L = Inr []"
  have "\<forall>f \<in> set (boundary s). f \<in> fmdom' cf"
    using cons closed pair(1) by (auto simp: coface_consistent_def face_closed_def)
  from getFreeFace_nonempty[OF pair(3) this pair(2,4)] obtain g where
    "getFreeFace cf s = Inr g" "g \<noteq> []" by blast
  from empty have "probe_all cf L [] = Inr []" by (simp add: getPrincipalFaces_def)
  from probe_all_finds[OF this pair(1) \<open>getFreeFace cf s = Inr g\<close> \<open>g \<noteq> []\<close>]
  show False by simp
qed

lemma no_admissible_pair:
  assumes closed: "face_closed L"
    and empty: "getPrincipalFaces (buildCofaceMap L) L = Inr []"
  shows "\<not> admissible_pair L s t"
proof
  assume p: "admissible_pair L s t"
  have cons: "coface_consistent L (buildCofaceMap L)"
    using closed by (rule buildCofaceMap_consistent)
  from p have sL: "s \<in> set L" and tbd: "t \<in> set (boundary s)"
    by (simp_all add: admissible_pair_def)
  then have tL: "t \<in> set L" using closed by (auto simp: face_closed_def)
  have "fmlookup (buildCofaceMap L) s = Some {}" "fmlookup (buildCofaceMap L) t = Some {s}"
    using cons sL tL p by (auto simp: coface_consistent_def admissible_pair_def)
  from admissible_pair_found[OF cons closed sL tbd this] empty show False by simp
qed

subsection \<open>A pass through the body of the loop\<close>

lemma for_each_remove_lookup:
  assumes "\<forall>f \<in> set fs. f \<in> fmdom' cf"
  shows "\<exists>cf'. for_each_remove s t cf fs = Inr cf' \<and>
     (\<forall>x. fmlookup cf' x =
        (if x \<in> set fs then map_option (\<lambda>cs. cs - {s, t}) (fmlookup cf x) else fmlookup cf x))"
  using assms
proof (induction fs arbitrary: cf)
  case Nil
  then show ?case by simp
next
  case (Cons f fs)
  then obtain cs where cs: "fmlookup cf f = Some cs" by (auto simp: fmlookup_dom'_iff)
  let ?cf = "fmupd f (cs - {s} - {t}) cf"
  have step: "removeSimplices s t cf f = Inr ?cf" by (simp add: removeSimplices_def coface_at_def cs)
  have "\<forall>x \<in> set fs. x \<in> fmdom' ?cf" using Cons.prems by simp
  from Cons.IH[OF this] obtain cf' where cf': "for_each_remove s t ?cf fs = Inr cf'"
    "\<And>x. fmlookup cf' x =
        (if x \<in> set fs then map_option (\<lambda>cs. cs - {s, t}) (fmlookup ?cf x) else fmlookup ?cf x)"
    by blast
  have "\<And>x. fmlookup cf' x =
        (if x \<in> set (f # fs) then map_option (\<lambda>cs. cs - {s, t}) (fmlookup cf x) else fmlookup cf x)"
    unfolding cf'(2) using cs by auto
  with step cf'(1) show ?case by simp
qed

lemma spine_body_preserves:
  assumes inv: "spine_inv st" and ne: "admissible_of st \<noteq> []"
  shows "\<exists>st'. spine_body sel st = Inr st' \<and> spine_inv st' \<and>
           length (complex_of st') + 2 = length (complex_of st) \<and>
           set (complex_of st') \<subseteq> set (complex_of st)"
proof -
  define L where "L = complex_of st"
  define cf where "cf = cofaces_of st"
  define adm where "adm = admissible_of st"
  obtain s t where sel: "adm_begin sel adm = (s, t)" by (cases "adm_begin sel adm")
  have mem: "(s, t) \<in> set adm"
    using adm_begin_mem[of adm sel] ne sel by (simp add: adm_def)
  from inv have dist: "distinct L" and closed: "face_closed L"
    and cons: "coface_consistent L cf" and valid: "admissible_valid L cf adm"
    by (simp_all add: spine_inv_def L_def cf_def adm_def)
  from cons have dom: "fmdom' cf = set L"
    and look: "\<And>x. x \<in> set L \<Longrightarrow> fmlookup cf x = Some (immediate_cofaces L x)"
    by (simp_all add: coface_consistent_def)
  from valid mem have sL: "s \<in> set L" and tL: "t \<in> set L" and tbd: "t \<in> set (boundary s)"
    and cfs: "fmlookup cf s = Some {}" and cft: "fmlookup cf t = Some {s}"
    by (auto simp: admissible_valid_def)
  have st_neq: "s \<noteq> t" using tbd by (auto dest: boundary_neq)
  have ics: "immediate_cofaces L s = {}" using look[OF sL] cfs by simp
  have ict: "immediate_cofaces L t = {s}" using look[OF tL] cft by simp
  have bds: "set (boundary s) \<subseteq> set L" and bdt: "set (boundary t) \<subseteq> set L"
    using closed sL tL by (auto simp: face_closed_def)

  \<comment> \<open>the coface mutation\<close>
  have "\<forall>f \<in> set (boundary s). f \<in> fmdom' cf" using bds dom by auto
  from for_each_remove_lookup[OF this, of s t] obtain cf1 where
    r1: "for_each_remove s t cf (boundary s) = Inr cf1" and
    l1: "\<And>x. fmlookup cf1 x =
        (if x \<in> set (boundary s) then map_option (\<lambda>cs. cs - {s, t}) (fmlookup cf x) else fmlookup cf x)"
    by blast
  have dom1: "fmdom' cf1 = set L" using for_each_remove_dom[OF r1] dom by simp
  have "\<forall>f \<in> set (boundary t). f \<in> fmdom' cf1" using bdt dom1 by auto
  from for_each_remove_lookup[OF this, of s t] obtain cf2 where
    r2: "for_each_remove s t cf1 (boundary t) = Inr cf2" and
    l2: "\<And>x. fmlookup cf2 x =
        (if x \<in> set (boundary t) then map_option (\<lambda>cs. cs - {s, t}) (fmlookup cf1 x) else fmlookup cf1 x)"
    by blast
  have dom2: "fmdom' cf2 = set L" using for_each_remove_dom[OF r2] dom1 by simp
  have look2: "fmlookup cf2 x = Some (immediate_cofaces L x - {s, t})" if "x \<in> set L" for x
  proof -
    have "x \<notin> set (boundary s) \<Longrightarrow> s \<notin> immediate_cofaces L x"
      and "x \<notin> set (boundary t) \<Longrightarrow> t \<notin> immediate_cofaces L x"
      by (simp_all add: immediate_cofaces_iff)
    then show ?thesis
      unfolding l2 l1 using look[OF that] by auto
  qed
  define cf' where "cf' = fmdrop t (fmdrop s cf2)"
  define L' where "L' = remove_without_validation t (remove_without_validation s L)"
  have setL': "set L' = set L - {s, t}"
    using dist by (auto simp: L'_def remove_without_validation_def)
  have dist': "distinct L'"
    using dist by (simp add: L'_def remove_without_validation_def)
  have len': "length L' + 2 = length L"
  proof -
    have "t \<in> set (remove1 s L)" using tL st_neq by simp
    then have "length (remove1 t (remove1 s L)) = length (remove1 s L) - 1"
      by (simp add: length_remove1)
    moreover have "length (remove1 s L) = length L - 1" using sL by (simp add: length_remove1)
    moreover have "length L \<ge> 2"
    proof -
      have "card {s, t} \<le> card (set L)" using sL tL by (intro card_mono) auto
      then show ?thesis using st_neq card_length[of L] by simp
    qed
    ultimately show ?thesis by (simp add: L'_def remove_without_validation_def)
  qed
  have dom': "fmdom' cf' = set L'" by (auto simp: cf'_def dom2 setL')
  have ic': "immediate_cofaces L' x = immediate_cofaces L x - {s, t}" for x
    by (auto simp: immediate_cofaces_iff setL')
  have look': "fmlookup cf' x = Some (immediate_cofaces L' x)" if "x \<in> set L'" for x
    using that look2[of x] by (auto simp: cf'_def setL' ic')
  have cons': "coface_consistent L' cf'"
    using dom' look' by (simp add: coface_consistent_def)
  have closed': "face_closed L'"
    unfolding face_closed_def
  proof (intro ballI)
    fix x f assume x: "x \<in> set L'" and f: "f \<in> set (boundary x)"
    then have xL: "x \<in> set L" and xs: "x \<noteq> s" by (auto simp: setL')
    have "f \<in> set L" using closed xL f by (auto simp: face_closed_def)
    moreover have "f \<noteq> s"
    proof
      assume "f = s"
      then have "x \<in> immediate_cofaces L s" using xL f by (simp add: immediate_cofaces_iff)
      then show False using ics by simp
    qed
    moreover have "f \<noteq> t"
    proof
      assume "f = t"
      then have "x \<in> immediate_cofaces L t" using xL f by (simp add: immediate_cofaces_iff)
      then show False using ict xs by simp
    qed
    ultimately show "f \<in> set L'" by (simp add: setL')
  qed

  \<comment> \<open>the pairs that stay in the admissible map\<close>
  have valid0: "admissible_valid L' cf' (adm_erase s adm)"
    unfolding admissible_valid_def
  proof (intro conjI ballI)
    show "distinct (map fst (adm_erase s adm))"
      using valid by (simp add: admissible_valid_def adm_erase_def distinct_map_filter)
  next
    fix p assume "p \<in> set (adm_erase s adm)"
    then have p: "p \<in> set adm" and ps: "fst p \<noteq> s" by (auto simp: adm_erase_def)
    from valid p have pL: "fst p \<in> set L" "snd p \<in> set L"
      and pbd: "snd p \<in> set (boundary (fst p))"
      and pf: "fmlookup cf (fst p) = Some {}" and ps2: "fmlookup cf (snd p) = Some {fst p}"
      by (auto simp: admissible_valid_def)
    have pt: "fst p \<noteq> t" using pf cft by auto
    have qs: "snd p \<noteq> s" using ps2 cfs by auto
    have qt: "snd p \<noteq> t" using ps2 cft ps by auto
    show "fst p \<in> set L'" using pL ps pt by (simp add: setL')
    then have "fmlookup cf' (fst p) = Some (immediate_cofaces L (fst p) - {s, t})"
      using look' by (simp add: ic')
    moreover have "immediate_cofaces L (fst p) = {}" using look[OF pL(1)] pf by simp
    ultimately show "fmlookup cf' (fst p) = Some {}" by simp
    show q: "snd p \<in> set L'" using pL qs qt by (simp add: setL')
    then have "fmlookup cf' (snd p) = Some (immediate_cofaces L (snd p) - {s, t})"
      using look' by (simp add: ic')
    moreover have "immediate_cofaces L (snd p) = {fst p}" using look[OF pL(2)] ps2 by simp
    ultimately show "fmlookup cf' (snd p) = Some {fst p}" using ps pt by auto
    show "snd p \<in> set (boundary (fst p))" by (rule pbd)
  qed

  \<comment> \<open>the local probes\<close>
  have fs1: "set (filter (\<lambda>f. t \<noteq> f) (boundary s)) \<subseteq> set L'"
    using bds by (auto simp: setL' dest: boundary_neq)
  have fs2: "set (boundary t) \<subseteq> set L'"
    using bdt tbd by (auto simp: setL' dest: boundary_neq boundary_boundary_neq)
  from probe_all_valid[OF dom' closed' fs1 valid0] obtain adm1 where
    p1: "probe_all cf' (filter (\<lambda>f. t \<noteq> f) (boundary s)) (adm_erase s adm) = Inr adm1"
    and valid1: "admissible_valid L' cf' adm1" by blast
  from probe_all_valid[OF dom' closed' fs2 valid1] obtain adm2 where
    p2: "probe_all cf' (boundary t) adm1 = Inr adm2"
    and valid2: "admissible_valid L' cf' adm2" by blast
  from probe_all_valid[OF dom' closed' subset_refl admissible_valid_Nil] obtain adm3 where
    p3: "getPrincipalFaces cf' L' = Inr adm3"
    and valid3: "admissible_valid L' cf' adm3" by (auto simp: getPrincipalFaces_def)
  define adm' where "adm' = (if adm2 = [] then adm3 else adm2)"
  define st' where "st' = \<lparr>complex_of = L', cofaces_of = cf', admissible_of = adm'\<rparr>"
  have body: "spine_body sel st = Inr st'"
    using sel r1 r2 p1 p2 p3
    unfolding spine_body_def Let_def st'_def adm'_def
    by (simp add: L_def[symmetric] cf_def[symmetric] adm_def[symmetric] L'_def[symmetric] cf'_def[symmetric])
  moreover have "admissible_valid L' cf' adm'" using valid2 valid3 by (simp add: adm'_def)
  moreover have "adm' = [] \<longrightarrow> getPrincipalFaces cf' L' = Inr []"
    using p3 by (auto simp: adm'_def)
  ultimately have "spine_inv st'"
    using dist' closed' cons' by (simp add: spine_inv_def st'_def)
  moreover have "length (complex_of st') + 2 = length (complex_of st)"
    using len' by (simp add: st'_def L_def)
  moreover have "set (complex_of st') \<subseteq> set (complex_of st)"
    using setL' by (auto simp: st'_def L_def)
  ultimately show ?thesis using body by blast
qed

subsection \<open>The states of a run\<close>

lemma start_inv:
  assumes "distinct K" "face_closed K"
  shows "\<exists>adm. getPrincipalFaces (buildCofaceMap K) K = Inr adm \<and>
     spine_inv \<lparr>complex_of = K, cofaces_of = buildCofaceMap K, admissible_of = adm\<rparr>"
proof -
  have cons: "coface_consistent K (buildCofaceMap K)"
    using assms(2) by (rule buildCofaceMap_consistent)
  then have dom: "fmdom' (buildCofaceMap K) = set K" by (simp add: coface_consistent_def)
  from probe_all_valid[OF dom assms(2) subset_refl admissible_valid_Nil] obtain adm where
    "getPrincipalFaces (buildCofaceMap K) K = Inr adm"
    "admissible_valid K (buildCofaceMap K) adm" by (auto simp: getPrincipalFaces_def)
  then show ?thesis using assms cons by (auto simp: spine_inv_def)
qed

lemma reachable_inv:
  assumes "distinct K" "face_closed K" "reachable sel K st"
  shows "spine_inv st"
  using assms(3)
proof (induction rule: reachable.induct)
  case (start adm)
  then show ?case using start_inv[OF assms(1,2)] by auto
next
  case (iterate st st')
  then show ?case using spine_body_preserves[of st sel] by auto
qed

lemma reachable_subset:
  "reachable sel K st \<Longrightarrow> set (complex_of st) \<subseteq> set K \<and> length (complex_of st) \<le> length K"
proof (induction rule: reachable.induct)
  case (start adm)
  then show ?case by simp
next
  case (iterate st st')
  from iterate(3) obtain s t where
    "complex_of st' = remove_without_validation t (remove_without_validation s (complex_of st))"
    by (rule spine_body_InrE)
  then have "set (complex_of st') \<subseteq> set (complex_of st)"
    and "length (complex_of st') \<le> length (complex_of st)"
    using set_remove1_subset[of t "remove1 s (complex_of st)"] set_remove1_subset[of s "complex_of st"]
    by (auto simp: remove_without_validation_def length_remove1)
  with iterate.IH show ?case by auto
qed

lemma reachable_parity:
  assumes "distinct K" "face_closed K" "reachable sel K st"
  shows "\<exists>n. length K = length (complex_of st) + 2 * n"
  using assms(3)
proof (induction rule: reachable.induct)
  case (start adm)
  then show ?case by simp
next
  case (iterate st st')
  have "spine_inv st" using assms(1,2) iterate(1) by (rule reachable_inv)
  from spine_body_preserves[OF this iterate(2), of sel] iterate(3)
  have len: "length (complex_of st') + 2 = length (complex_of st)" by auto
  from iterate.IH obtain n where "length K = length (complex_of st) + 2 * n" by blast
  then have "length K = length (complex_of st') + 2 * Suc n" using len by simp
  then show ?case by blast
qed

lemma reachable_loop:
  "reachable sel K st \<Longrightarrow> spine_loop sel st = spine sel K"
proof (induction rule: reachable.induct)
  case (start adm)
  then show ?case by (simp add: spine_def)
next
  case (iterate st st')
  then show ?case by simp
qed

lemma spine_loop_final:
  assumes "spine_inv st" "reachable sel K st"
  shows "\<exists>st'. reachable sel K st' \<and> admissible_of st' = [] \<and> spine_inv st' \<and>
           spine_loop sel st = Inr (complex_of st')"
  using assms
proof (induction sel st rule: spine_loop.induct)
  case (1 sel st)
  show ?case
  proof (cases "admissible_of st = []")
    case True
    with "1.prems" show ?thesis by auto
  next
    case False
    from spine_body_preserves[OF "1.prems"(1) False, of sel] obtain st1 where
      body: "spine_body sel st = Inr st1" and inv1: "spine_inv st1" by blast
    have "reachable sel K st1" using "1.prems"(2) False body by (rule reachable.iterate)
    from "1.IH"[OF False body inv1 this] False body show ?thesis by simp
  qed
qed

lemma spine_final:
  assumes "distinct K" "face_closed K"
  shows "\<exists>st. reachable sel K st \<and> admissible_of st = [] \<and> spine_inv st \<and>
           spine sel K = Inr (complex_of st)"
proof -
  from start_inv[OF assms] obtain adm where
    adm: "getPrincipalFaces (buildCofaceMap K) K = Inr adm" and
    inv: "spine_inv \<lparr>complex_of = K, cofaces_of = buildCofaceMap K, admissible_of = adm\<rparr>"
    by blast
  have "reachable sel K \<lparr>complex_of = K, cofaces_of = buildCofaceMap K, admissible_of = adm\<rparr>"
    using adm by (rule reachable.start)
  from spine_loop_final[OF inv this] reachable_loop[OF this] show ?thesis by simp
qed

lemma rebuild_empty_iff:
  assumes "spine_inv st"
  shows "admissible_of st = [] \<longleftrightarrow> getPrincipalFaces (cofaces_of st) (complex_of st) = Inr []"
proof
  assume "admissible_of st = []"
  with assms show "getPrincipalFaces (cofaces_of st) (complex_of st) = Inr []"
    by (simp add: spine_inv_def)
next
  assume empty: "getPrincipalFaces (cofaces_of st) (complex_of st) = Inr []"
  show "admissible_of st = []"
  proof (rule ccontr)
    assume "admissible_of st \<noteq> []"
    then obtain p where "p \<in> set (admissible_of st)" by (cases "admissible_of st") auto
    with assms have "fst p \<in> set (complex_of st)" "snd p \<in> set (boundary (fst p))"
      "fmlookup (cofaces_of st) (fst p) = Some {}" "fmlookup (cofaces_of st) (snd p) = Some {fst p}"
      by (auto simp: spine_inv_def admissible_valid_def)
    from admissible_pair_found[OF _ _ this] assms empty show False
      by (simp add: spine_inv_def)
  qed
qed




subsection \<open>The naive reducer\<close>

lemma free_face_step_keeps:
  "fst ` set adm \<subseteq> fst ` set (free_face_step M its adm)"
proof (induction its arbitrary: adm)
  case Nil
  then show ?case by simp
next
  case (Cons it rest)
  have ins: "fst ` set adm \<subseteq> fst ` set (adm_insert (it, f) adm)" for f
    by (auto simp: adm_insert_def)
  show ?case
  proof (cases "dimension it = 0")
    case True
    with Cons.IH[of adm] show ?thesis by simp
  next
    case False
    show ?thesis
    proof (cases "first_free_face M it (boundary it)")
      case None
      with False Cons.IH[of adm] show ?thesis by simp
    next
      case (Some f)
      with False Cons.IH[of "adm_insert (it, f) adm"] ins[of f] show ?thesis
        by auto
    qed
  qed
qed

lemma free_face_step_complete:
  assumes "s \<in> set its" "dimension s \<noteq> 0" "first_free_face M s (boundary s) \<noteq> None"
  shows "s \<in> fst ` set (free_face_step M its adm)"
  using assms(1)
proof (induction its arbitrary: adm)
  case Nil
  then show ?case by simp
next
  case (Cons it rest)
  show ?case
  proof (cases "it = s")
    case True
    from assms(3) obtain f where f: "first_free_face M s (boundary s) = Some f" by auto
    have "s \<in> fst ` set (adm_insert (s, f) adm)" by (auto simp: adm_insert_def)
    then have "s \<in> fst ` set (free_face_step M rest (adm_insert (s, f) adm))"
      using free_face_step_keeps by blast
    with True f assms(2) show ?thesis by simp
  next
    case False
    with Cons show ?thesis by (auto split: option.splits)
  qed
qed

lemma dumb_principalFaces_complete:
  assumes "s \<in> set L" "t \<in> set (boundary s)" "\<not> is_face_of_other L s t"
    "\<forall>x \<in> set L. s \<notin> set (boundary x)"
  shows "dumb_principalFaces L \<noteq> []"
proof -
  have "length s \<ge> 2" using assms(2) by (auto simp: boundary_def split: if_splits)
  then have "dimension s \<noteq> 0" by (simp add: dimension_def)
  moreover have "first_free_face L s (boundary s) \<noteq> None"
    using assms(2,3) by (auto simp: first_free_face_None)
  ultimately have "s \<in> fst ` set (free_face_step L L [])"
    using free_face_step_complete[OF assms(1)] by blast
  then obtain p where "p \<in> set (free_face_step L L [])" "fst p = s" by auto
  then have "p \<in> set (dumb_principalFaces L)"
    using assms(4) by (auto simp: dumb_principalFaces_def erase_all_set)
  then show ?thesis by auto
qed

lemma boundary_is_face_of_other:
  assumes "x \<in> set L" "x \<noteq> s" "t \<in> set (boundary x)"
  shows "is_face_of_other L s t"
proof -
  have "length x = Suc (length t)" using assms(3) by (rule boundary_length)
  moreover have "t \<noteq> []" using assms(3) by (rule boundary_not_Nil)
  ultimately have "dimension t + 1 = dimension x"
    by (cases t) (simp_all add: dimension_def)
  moreover have "intersect t x = t"
    using boundary_subset[OF assms(3)] by (auto simp: intersect_def filter_id_conv)
  ultimately show ?thesis
    using assms(1,2) by (auto simp: is_face_of_other_def list_ex_iff)
qed

lemma descending_set_unique:
  assumes "sorted_wrt (\<lambda>u v. u > v) (xs :: nat list)" "sorted_wrt (\<lambda>u v. u > v) ys" "set xs = set ys"
  shows "xs = ys"
proof -
  have "sorted_wrt (<) (rev xs)" "sorted_wrt (<) (rev ys)"
    using assms(1,2) by (simp_all add: sorted_wrt_rev)
  then have "sorted (rev xs)" "distinct (rev xs)" "sorted (rev ys)" "distinct (rev ys)"
    by (simp_all add: strict_sorted_iff)
  moreover have "set (rev xs) = set (rev ys)" using assms(3) by simp
  ultimately have "rev xs = rev ys" by (rule sorted_distinct_set_unique)
  then show ?thesis by simp
qed

lemma descending_distinct: "sorted_wrt (\<lambda>u v. u > v) (xs :: nat list) \<Longrightarrow> distinct xs"
  by (induction xs) auto

lemma descending_face:
  assumes "sorted_wrt (\<lambda>u v. u > v) (x :: nat list)" "sorted_wrt (\<lambda>u v. u > v) f"
    "set f \<subseteq> set x" "length x = Suc (length f)"
  shows "f \<in> set (omit_each x)"
  using assms
proof (induction x arbitrary: f)
  case Nil
  then show ?case by simp
next
  case (Cons a xs)
  show ?case
  proof (cases "a \<in> set f")
    case True
    then obtain b fs where f: "f = b # fs" by (cases f) auto
    have "b = a"
    proof (rule ccontr)
      assume "b \<noteq> a"
      then have "a \<in> set fs" using True f by simp
      then have "a < b" using Cons.prems(2) f by auto
      moreover have "b \<in> set xs" using Cons.prems(3) f \<open>b \<noteq> a\<close> by auto
      then have "b < a" using Cons.prems(1) by auto
      ultimately show False by simp
    qed
    have "set fs \<subseteq> set xs"
    proof
      fix v assume v: "v \<in> set fs"
      then have "v < a" using Cons.prems(2) f \<open>b = a\<close> by auto
      moreover have "v \<in> set (a # xs)" using Cons.prems(3) f v by auto
      ultimately show "v \<in> set xs" by auto
    qed
    moreover have "sorted_wrt (\<lambda>u v. u > v) xs" "sorted_wrt (\<lambda>u v. u > v) fs"
      using Cons.prems(1,2) f by simp_all
    moreover have "length xs = Suc (length fs)" using Cons.prems(4) f by simp
    ultimately have "fs \<in> set (omit_each xs)" using Cons.IH by blast
    then show ?thesis using f \<open>b = a\<close> by simp
  next
    case False
    then have sub: "set f \<subseteq> set xs" using Cons.prems(3) by auto
    have dx: "distinct xs" "distinct f"
      using Cons.prems(1,2) by (auto dest: descending_distinct)
    have "length f = length xs" using Cons.prems(4) by simp
    then have "card (set f) = card (set xs)" using dx by (simp add: distinct_card)
    then have "set f = set xs" using sub by (simp add: card_subset_eq)
    moreover have "sorted_wrt (\<lambda>u v. u > v) xs" using Cons.prems(1) by simp
    ultimately have "f = xs" using Cons.prems(2) by (intro descending_set_unique)
    then show ?thesis by simp
  qed
qed

lemma is_face_of_other_boundary:
  assumes "is_face_of_other L s t" "\<forall>x \<in> set L. valid_simplex x" "valid_simplex t"
  shows "\<exists>x \<in> set L. x \<noteq> s \<and> t \<in> set (boundary x)"
proof -
  from assms(1) obtain x where x: "x \<in> set L" "x \<noteq> s" "dimension t + 1 = dimension x"
    "intersect t x = t"
    by (auto simp: is_face_of_other_def list_ex_iff)
  have vx: "valid_simplex x" using assms(2) x(1) by simp
  have len: "length x = Suc (length t)"
    using x(3) vx assms(3) by (cases x; cases t) (simp_all add: dimension_def valid_simplex_def)
  have "set t \<subseteq> set x"
  proof
    fix v assume "v \<in> set t"
    then have "v \<in> set (intersect t x)" using x(4) by simp
    then show "v \<in> set x" by (simp add: intersect_def)
  qed
  then have "t \<in> set (omit_each x)"
    using vx assms(3) len by (intro descending_face) (simp_all add: valid_simplex_def)
  moreover have "length x > 1" using len assms(3) by (cases t) (simp_all add: valid_simplex_def)
  ultimately have "t \<in> set (boundary x)" by (simp add: boundary_def)
  with x(1,2) show ?thesis by blast
qed

lemma dumb_no_admissible_pair:
  assumes closed: "face_closed D" and valid: "\<forall>x \<in> set D. valid_simplex x"
    and empty: "dumb_principalFaces D = []"
  shows "\<not> admissible_pair D s t"
proof
  assume p: "admissible_pair D s t"
  then have sD: "s \<in> set D" and tbd: "t \<in> set (boundary s)"
    and ics: "immediate_cofaces D s = {}" and ict: "immediate_cofaces D t = {s}"
    by (simp_all add: admissible_pair_def)
  have tD: "t \<in> set D" using closed sD tbd by (auto simp: face_closed_def)
  have "\<not> is_face_of_other D s t"
  proof
    assume "is_face_of_other D s t"
    from is_face_of_other_boundary[OF this valid] tD valid obtain x where
      "x \<in> set D" "x \<noteq> s" "t \<in> set (boundary x)" by blast
    then have "x \<in> immediate_cofaces D t" by (simp add: immediate_cofaces_iff)
    then show False using ict \<open>x \<noteq> s\<close> by simp
  qed
  moreover have "\<forall>x \<in> set D. s \<notin> set (boundary x)"
    using ics by (auto simp: immediate_cofaces_def)
  ultimately show False
    using dumb_principalFaces_complete[OF sD tbd] empty by blast
qed

lemma dumb_step_closed:
  assumes dist: "distinct L" and closed: "face_closed L"
    and pair: "(s, t) \<in> set (dumb_principalFaces L)"
  defines "L' \<equiv> remove_without_validation t (remove_without_validation s L)"
  shows "distinct L' \<and> face_closed L' \<and> length L' + 2 = length L \<and> set L' \<subseteq> set L"
proof -
  from dumb_principalFaces_sound[OF pair] have sL: "s \<in> set L" and tbd: "t \<in> set (boundary s)"
    and free: "\<not> is_face_of_other L s t" and top: "\<forall>x \<in> set L. s \<notin> set (boundary x)"
    by simp_all
  have tL: "t \<in> set L" using closed sL tbd by (auto simp: face_closed_def)
  have st: "s \<noteq> t" using tbd by (auto dest: boundary_neq)
  have setL': "set L' = set L - {s, t}"
    using dist by (auto simp: L'_def remove_without_validation_def)
  have dist': "distinct L'" using dist by (simp add: L'_def remove_without_validation_def)
  have "length (remove1 s L) + 1 = length L"
    using sL length_pos_if_in_set[OF sL] by (simp add: length_remove1)
  moreover have "t \<in> set (remove1 s L)" using tL st by simp
  then have "length (remove1 t (remove1 s L)) + 1 = length (remove1 s L)"
    using length_pos_if_in_set[of t "remove1 s L"] by (simp add: length_remove1)
  ultimately have len: "length L' + 2 = length L"
    by (simp add: L'_def remove_without_validation_def)
  have "face_closed L'"
    unfolding face_closed_def
  proof (intro ballI)
    fix x f assume x: "x \<in> set L'" and f: "f \<in> set (boundary x)"
    then have xL: "x \<in> set L" and xs: "x \<noteq> s" by (auto simp: setL')
    have "f \<in> set L" using closed xL f by (auto simp: face_closed_def)
    moreover have "f \<noteq> s" using top xL f by auto
    moreover have "f \<noteq> t" using boundary_is_face_of_other[OF xL xs] f free by auto
    ultimately show "f \<in> set L'" by (simp add: setL')
  qed
  with dist' len setL' show ?thesis by auto
qed

lemma dumb_spine_loop_props:
  assumes "distinct L" "face_closed L" "adm = dumb_principalFaces L"
  shows "distinct (dumb_spine_loop sel L adm) \<and> face_closed (dumb_spine_loop sel L adm) \<and>
         set (dumb_spine_loop sel L adm) \<subseteq> set L \<and>
         dumb_principalFaces (dumb_spine_loop sel L adm) = [] \<and>
         (\<exists>n. length L = length (dumb_spine_loop sel L adm) + 2 * n)"
  using assms
proof (induction sel L adm rule: dumb_spine_loop.induct)
  case (1 sel L adm)
  show ?case
  proof (cases "adm = []")
    case True
    with "1.prems" show ?thesis by simp
  next
    case False
    define s where "s = fst (adm_begin sel adm)"
    define t where "t = snd (adm_begin sel adm)"
    define L' where "L' = remove_without_validation t (remove_without_validation s L)"
    have "(s, t) \<in> set (dumb_principalFaces L)"
      using adm_begin_mem[OF False, of sel] "1.prems"(3) by (simp add: s_def t_def)
    from dumb_step_closed[OF "1.prems"(1,2) this]
    have step: "distinct L'" "face_closed L'" "length L' + 2 = length L" "set L' \<subseteq> set L"
      by (simp_all add: L'_def)
    have unfold: "dumb_spine_loop sel L adm = dumb_spine_loop sel L' (dumb_principalFaces L')"
      using False by (simp add: s_def t_def L'_def Let_def)
    from "1.IH"[OF False s_def t_def L'_def step(1,2) refl]
    have IH: "distinct (dumb_spine_loop sel L' (dumb_principalFaces L'))"
      "face_closed (dumb_spine_loop sel L' (dumb_principalFaces L'))"
      "set (dumb_spine_loop sel L' (dumb_principalFaces L')) \<subseteq> set L'"
      "dumb_principalFaces (dumb_spine_loop sel L' (dumb_principalFaces L')) = []"
      "\<exists>n. length L' = length (dumb_spine_loop sel L' (dumb_principalFaces L')) + 2 * n"
      by simp_all
    from IH(5) obtain n where "length L' = length (dumb_spine_loop sel L' (dumb_principalFaces L')) + 2 * n"
      by blast
    then have "length L = length (dumb_spine_loop sel L' (dumb_principalFaces L')) + 2 * Suc n"
      using step(3) by simp
    then have "\<exists>n. length L = length (dumb_spine_loop sel L' (dumb_principalFaces L')) + 2 * n"
      by blast
    with IH(1-4) step(4) show ?thesis unfolding unfold by auto
  qed
qed

subsection \<open>The example complexes\<close>

lemma adm_begin_single: "adm_begin sel [p] = p"
  by (simp add: adm_begin_def)

lemma adm_begin_two: "adm_begin sel [p, q] = p \<or> adm_begin sel [p, q] = q"
proof -
  define n where "n = sel [p, q] mod length [p, q]"
  have "n < length [p, q]" unfolding n_def by (rule mod_less_divisor) simp
  then have "n = 0 \<or> n = 1" by auto
  then show ?thesis unfolding adm_begin_def n_def[symmetric] by auto
qed

lemmas eval_simps = getPrincipalFaces_def getFreeFace_def isPrincipal_def coface_at_def
  buildCofaceMap_lookup immediate_cofaces_def boundary_def adm_insert_def adm_erase_def
  spine_body_def removeSimplices_def remove_without_validation_def Let_def

lemmas dumb_eval_simps = dumb_spine_def dumb_principalFaces_def erase_faces_def
  is_face_of_other_def intersect_def dimension_def boundary_def adm_insert_def adm_erase_def
  remove_without_validation_def Let_def

lemma triangle_eq: "triangle = [[2, 1, 0], [1, 0], [2, 0], [2, 1], [0], [1], [2]]"
  by (simp add: triangle_def mk_simplex_def)

lemma hollow_triangle_eq: "hollow_triangle = [[1, 0], [2, 0], [2, 1], [0], [1], [2]]"
  by (simp add: hollow_triangle_def mk_simplex_def)

lemma two_triangles_eq:
  "two_triangles =
     [[2, 1, 0], [3, 1, 0], [1, 0], [2, 0], [2, 1], [3, 0], [3, 1], [4, 0], [4, 1],
      [0], [1], [2], [3], [4]]"
  by (simp add: two_triangles_def mk_simplex_def)

lemma distinct_triangle: "distinct triangle"
  by (simp add: triangle_eq)

lemma face_closed_triangle: "face_closed triangle"
  by (simp add: triangle_eq face_closed_def boundary_def)

lemma distinct_hollow_triangle: "distinct hollow_triangle"
  by (simp add: hollow_triangle_eq)

lemma face_closed_hollow_triangle: "face_closed hollow_triangle"
  by (simp add: hollow_triangle_eq face_closed_def boundary_def)

lemma distinct_two_triangles: "distinct two_triangles"
  by (simp add: two_triangles_eq)

lemma face_closed_two_triangles: "face_closed two_triangles"
  by (simp add: two_triangles_eq face_closed_def boundary_def)

lemma valid_two_triangles: "\<forall>s \<in> set two_triangles. valid_simplex s"
  by (simp add: two_triangles_eq valid_simplex_def)

lemma hollow_triangle_rebuild:
  "getPrincipalFaces (buildCofaceMap hollow_triangle) hollow_triangle = Inr []"
  by (simp add: eval_simps hollow_triangle_eq)

lemma hollow_triangle_cofaces:
  "map (fmlookup (buildCofaceMap hollow_triangle)) [[0], [1], [2]] =
     [Some {[1, 0], [2, 0]}, Some {[1, 0], [2, 1]}, Some {[2, 0], [2, 1]}]"
  by (auto simp add: eval_simps hollow_triangle_eq)

lemma triangle_start_rebuild:
  "getPrincipalFaces (buildCofaceMap triangle) triangle = Inr [([2, 1, 0], [1, 0])]"
  by (simp add: eval_simps triangle_eq)

lemma triangle_start_reachable: "reachable sel triangle triangle_start"
  unfolding triangle_start_def using triangle_start_rebuild by (rule reachable.start)

lemma triangle_spine: "spine sel triangle = Inr [[2]]"
  using adm_begin_two[of sel "([2, 0], [0])" "([2, 1], [1])"]
  by (auto simp add: spine_def eval_simps triangle_eq adm_begin_single)

lemma two_triangles_dumb_oldest:
  "dumb_spine oldest_first two_triangles = [[3, 0], [3, 1], [4, 0], [4, 1], [0], [1], [3], [4]]"
  by (simp add: dumb_eval_simps two_triangles_eq adm_begin_def oldest_first_def)

lemma two_triangles_spine_oldest:
  "spine oldest_first two_triangles = Inr [[1, 0], [4, 0], [4, 1], [0], [1], [4]]"
  by (simp add: spine_def eval_simps two_triangles_eq adm_begin_def oldest_first_def)









text \<open>
  On \<open>two_triangles\<close> the sizes of the two results do not depend on the entry that
  \<open>begin()\<close> names: the incremental reducer keeps the pair of the second triangle with
  the free face it found first, the naive one takes the shared edge, which has become free
  and comes first in the boundary.
\<close>

lemma two_triangles_spine_any:
  "\<exists>L. spine sel two_triangles = Inr L \<and> length L = 6"
proof -
  note ev = spine_def eval_simps two_triangles_eq adm_begin_single
  consider (a) "adm_begin sel [([2, 1, 0], [2, 0]), ([3, 1, 0], [3, 0])] = ([2, 1, 0], [2, 0])"
    | (b) "adm_begin sel [([2, 1, 0], [2, 0]), ([3, 1, 0], [3, 0])] = ([3, 1, 0], [3, 0])"
    using adm_begin_two by blast
  then show ?thesis
  proof cases
    case a
    consider (aa) "adm_begin sel [([3, 1, 0], [3, 0]), ([2, 1], [2])] = ([3, 1, 0], [3, 0])"
      | (ab) "adm_begin sel [([3, 1, 0], [3, 0]), ([2, 1], [2])] = ([2, 1], [2])"
      using adm_begin_two by blast
    then show ?thesis
    proof cases
      case aa
      consider (aaa) "adm_begin sel [([2, 1], [2]), ([3, 1], [3])] = ([2, 1], [2])"
        | (aab) "adm_begin sel [([2, 1], [2]), ([3, 1], [3])] = ([3, 1], [3])"
        using adm_begin_two by blast
      then show ?thesis
      proof cases
        case aaa
        with a aa show ?thesis by (simp add: ev)
      next
        case aab
        with a aa show ?thesis by (simp add: ev)
      qed
    next
      case ab
      with a show ?thesis by (simp add: ev)
    qed
  next
    case b
    consider (ba) "adm_begin sel [([2, 1, 0], [2, 0]), ([3, 1], [3])] = ([2, 1, 0], [2, 0])"
      | (bb) "adm_begin sel [([2, 1, 0], [2, 0]), ([3, 1], [3])] = ([3, 1], [3])"
      using adm_begin_two by blast
    then show ?thesis
    proof cases
      case ba
      consider (baa) "adm_begin sel [([3, 1], [3]), ([2, 1], [2])] = ([3, 1], [3])"
        | (bab) "adm_begin sel [([3, 1], [3]), ([2, 1], [2])] = ([2, 1], [2])"
        using adm_begin_two by blast
      then show ?thesis
      proof cases
        case baa
        with b ba show ?thesis by (simp add: ev)
      next
        case bab
        with b ba show ?thesis by (simp add: ev)
      qed
    next
      case bb
      with b show ?thesis by (simp add: ev)
    qed
  qed
qed

lemma two_triangles_dumb_any:
  "length (dumb_spine sel two_triangles) = 8"
proof -
  note ev = dumb_eval_simps two_triangles_eq adm_begin_single
  consider (a) "adm_begin sel [([2, 1, 0], [2, 0]), ([3, 1, 0], [3, 0])] = ([2, 1, 0], [2, 0])"
    | (b) "adm_begin sel [([2, 1, 0], [2, 0]), ([3, 1, 0], [3, 0])] = ([3, 1, 0], [3, 0])"
    using adm_begin_two by blast
  then show ?thesis
  proof cases
    case a
    consider (aa) "adm_begin sel [([3, 1, 0], [1, 0]), ([2, 1], [2])] = ([3, 1, 0], [1, 0])"
      | (ab) "adm_begin sel [([3, 1, 0], [1, 0]), ([2, 1], [2])] = ([2, 1], [2])"
      using adm_begin_two by blast
    then show ?thesis
    proof cases
      case aa
      with a show ?thesis by (simp add: ev)
    next
      case ab
      with a show ?thesis by (simp add: ev)
    qed
  next
    case b
    consider (ba) "adm_begin sel [([2, 1, 0], [1, 0]), ([3, 1], [3])] = ([2, 1, 0], [1, 0])"
      | (bb) "adm_begin sel [([2, 1, 0], [1, 0]), ([3, 1], [3])] = ([3, 1], [3])"
      using adm_begin_two by blast
    then show ?thesis
    proof cases
      case ba
      with b show ?thesis by (simp add: ev)
    next
      case bb
      with b show ?thesis by (simp add: ev)
    qed
  qed
qed

section \<open>The claims\<close>

text \<open>
  Claim C1 says that the incremental reducer and the naive one return complexes of equal
  size for every face-closed complex. On \<open>two_triangles\<close> they do not: the incremental
  reducer returns the hollow triangle on the vertices 0, 1 and 4 (6 simplices), the naive
  one the cycle through the vertices 0, 3, 1 and 4 (8 simplices).
\<close>

theorem spine_sizes_differ:
  "distinct two_triangles \<and> face_closed two_triangles \<and>
   spine oldest_first two_triangles = Inr [[1, 0], [4, 0], [4, 1], [0], [1], [4]] \<and>
   dumb_spine oldest_first two_triangles =
     [[3, 0], [3, 1], [4, 0], [4, 1], [0], [1], [3], [4]]"
  using distinct_two_triangles face_closed_two_triangles two_triangles_spine_oldest
    two_triangles_dumb_oldest by simp

text \<open>
  Claim C1, amended: for every face-closed complex \<open>K\<close> the sizes of the results of the
  incremental reducer and of the naive one have the same parity: each differs from the
  size of \<open>K\<close> by twice the number of its collapses. Both results are face-closed
  sub-complexes of \<open>K\<close> in which no admissible pair is left. The sizes need not be equal.
\<close>

theorem spines_same_parity:
  assumes "distinct K" and "face_closed K" and "\<forall>s \<in> set K. valid_simplex s"
  shows "\<exists>L D. spine sel K = Inr L \<and> dumb_spine sel' K = D \<and>
           length L mod 2 = length D mod 2 \<and>
           face_closed L \<and> face_closed D \<and> set L \<subseteq> set K \<and> set D \<subseteq> set K \<and>
           (\<forall>s t. \<not> admissible_pair L s t) \<and> (\<forall>s t. \<not> admissible_pair D s t) \<and>
           (\<exists>m n. length K = length L + 2 * m \<and> length K = length D + 2 * n)"
proof -
  from spine_final[OF assms(1,2), of sel] obtain st where
    r: "reachable sel K st" and fin: "admissible_of st = []" and inv: "spine_inv st" and
    res: "spine sel K = Inr (complex_of st)" by blast
  define L where "L = complex_of st"
  define D where "D = dumb_spine sel' K"
  have closedL: "face_closed L" and cons: "coface_consistent L (cofaces_of st)"
    using inv by (simp_all add: spine_inv_def L_def)
  have subL: "set L \<subseteq> set K" using reachable_subset[OF r] by (simp add: L_def)
  have "getPrincipalFaces (cofaces_of st) L = Inr []"
    using rebuild_empty_iff[OF inv] fin by (simp add: L_def)
  moreover have "buildCofaceMap L = cofaces_of st"
    using buildCofaceMap_consistent[OF closedL] cons by (rule coface_consistent_unique)
  ultimately have noL: "\<forall>s t. \<not> admissible_pair L s t"
    using no_admissible_pair[OF closedL] by simp
  from reachable_parity[OF assms(1,2) r] obtain m where m: "length K = length L + 2 * m"
    by (auto simp: L_def)
  from dumb_spine_loop_props[OF assms(1,2) refl, of sel']
  have closedD: "face_closed D" and subD: "set D \<subseteq> set K"
    and emptyD: "dumb_principalFaces D = []" and "\<exists>n. length K = length D + 2 * n"
    by (simp_all add: D_def dumb_spine_def)
  then obtain n where n: "length K = length D + 2 * n" by blast
  have "\<forall>x \<in> set D. valid_simplex x" using subD assms(3) by auto
  then have noD: "\<forall>s t. \<not> admissible_pair D s t"
    using dumb_no_admissible_pair[OF closedD _ emptyD] by blast
  have "length L mod 2 = length D mod 2" using m n by presburger
  with res closedL closedD subL subD noL noD m n show ?thesis
    unfolding L_def[symmetric] D_def[symmetric] by blast
qed

theorem spines_same_parity_witness:
  "distinct two_triangles \<and> face_closed two_triangles \<and>
   (\<exists>L D. spine oldest_first two_triangles = Inr L \<and> dumb_spine oldest_first two_triangles = D \<and>
      length L mod 2 = length D mod 2 \<and>
      face_closed L \<and> face_closed D \<and> length L = 6 \<and> length D = 8 \<and>
      (\<exists>m n. length two_triangles = length L + 2 * m \<and>
             length two_triangles = length D + 2 * n))"
proof -
  from spines_same_parity[OF distinct_two_triangles face_closed_two_triangles valid_two_triangles,
      of oldest_first oldest_first]
  obtain L D where "spine oldest_first two_triangles = Inr L"
    "dumb_spine oldest_first two_triangles = D" "length L mod 2 = length D mod 2"
    "face_closed L" "face_closed D"
    "\<exists>m n. length two_triangles = length L + 2 * m \<and> length two_triangles = length D + 2 * n"
    by blast
  moreover from this have "length L = 6" "length D = 8"
    using two_triangles_spine_oldest two_triangles_dumb_oldest by auto
  ultimately show ?thesis
    using distinct_two_triangles face_closed_two_triangles by blast
qed

text \<open>
  Claim C2: for every face-closed complex \<open>K\<close>, \<open>spine\<close> returns a complex that is
  face-closed and has at most as many simplices as \<open>K\<close>.
\<close>

theorem spine_face_closed:
  assumes "distinct K" and "face_closed K"
  shows "\<exists>L. spine sel K = Inr L \<and> face_closed L \<and> length L \<le> length K"
proof -
  from spine_final[OF assms] obtain st where
    "reachable sel K st" "spine_inv st" "spine sel K = Inr (complex_of st)" by blast
  then show ?thesis
    using reachable_subset[of sel K st] by (auto simp: spine_inv_def)
qed

theorem spine_face_closed_witness:
  "distinct triangle \<and> face_closed triangle \<and>
   (\<exists>L. spine oldest_first triangle = Inr L \<and> face_closed L \<and> length L \<le> length triangle)"
  using spine_face_closed[OF distinct_triangle face_closed_triangle, of oldest_first]
    distinct_triangle face_closed_triangle by simp

text \<open>
  Claim C3: after \<open>buildCofaceMap\<close>, and in the state after every pass of the loop, the
  keys of the coface map are the simplices of the working complex (there is no entry of a
  removed simplex), and the entry of each is the set of the members that have it as a
  boundary face.
\<close>

theorem coface_map_consistent:
  assumes "distinct K" and "face_closed K"
  shows "coface_consistent K (buildCofaceMap K) \<and>
         (reachable sel K st \<longrightarrow> coface_consistent (complex_of st) (cofaces_of st))"
  using buildCofaceMap_consistent[OF assms(2)] reachable_inv[OF assms, of sel st]
  by (auto simp: spine_inv_def)

theorem coface_map_consistent_witness:
  "distinct triangle \<and> face_closed triangle \<and>
   coface_consistent triangle (buildCofaceMap triangle) \<and>
   (\<exists>st. reachable oldest_first triangle st \<and> length (complex_of st) = 5 \<and>
      coface_consistent (complex_of st) (cofaces_of st))"
proof -
  have inv: "spine_inv triangle_start"
    using distinct_triangle face_closed_triangle triangle_start_reachable by (rule reachable_inv)
  have ne: "admissible_of triangle_start \<noteq> []" by (simp add: triangle_start_def)
  from spine_body_preserves[OF inv ne, of oldest_first] obtain st where
    body: "spine_body oldest_first triangle_start = Inr st" and
    len: "length (complex_of st) + 2 = length (complex_of triangle_start)" by blast
  have r: "reachable oldest_first triangle st"
    using triangle_start_reachable ne body by (rule reachable.iterate)
  have "length (complex_of st) = 5" using len by (simp add: triangle_start_def triangle_eq)
  with r coface_map_consistent[OF distinct_triangle face_closed_triangle, of oldest_first st]
  show ?thesis using distinct_triangle face_closed_triangle by blast
qed

text \<open>
  Claim C4: \<open>spine\<close> is idempotent: it returns its own result unchanged, under any
  policy, and the result has no admissible pair.
\<close>

theorem spine_idempotent:
  assumes "distinct K" and "face_closed K"
  shows "\<exists>L. spine sel K = Inr L \<and> spine sel' L = Inr L \<and> (\<forall>s t. \<not> admissible_pair L s t)"
proof -
  from spine_final[OF assms] obtain st where
    fin: "admissible_of st = []" and inv: "spine_inv st" and
    res: "spine sel K = Inr (complex_of st)" by blast
  define L where "L = complex_of st"
  from inv have closed: "face_closed L" and cons: "coface_consistent L (cofaces_of st)"
    by (simp_all add: spine_inv_def L_def)
  have empty: "getPrincipalFaces (cofaces_of st) L = Inr []"
    using rebuild_empty_iff[OF inv] fin by (simp add: L_def)
  have cf: "buildCofaceMap L = cofaces_of st"
    using buildCofaceMap_consistent[OF closed] cons by (rule coface_consistent_unique)
  have again: "spine sel' L = Inr L"
    by (simp add: spine_def cf empty)
  have "\<not> admissible_pair L s t" for s t
  proof
    assume p: "admissible_pair L s t"
    then have sL: "s \<in> set L" and tbd: "t \<in> set (boundary s)" by (simp_all add: admissible_pair_def)
    then have tL: "t \<in> set L" using closed by (auto simp: face_closed_def)
    have "fmlookup (cofaces_of st) s = Some {}" "fmlookup (cofaces_of st) t = Some {s}"
      using cons sL tL p by (auto simp: coface_consistent_def admissible_pair_def)
    from admissible_pair_found[OF cons closed sL tbd this] empty show False by simp
  qed
  with res again show ?thesis by (auto simp: L_def)
qed

theorem spine_idempotent_witness:
  "distinct triangle \<and> face_closed triangle \<and>
   (\<exists>L. spine oldest_first triangle = Inr L \<and> spine newest_first L = Inr L \<and>
      (\<forall>s t. \<not> admissible_pair L s t))"
  using spine_idempotent[OF distinct_triangle face_closed_triangle, of oldest_first newest_first]
    distinct_triangle face_closed_triangle by simp

text \<open>
  Claim C5: where \<open>cofaces\<close> has an entry for \<open>s\<close>, \<open>getFreeFace\<close> returns the empty
  simplex when the entry is not empty; when the entry is empty and every boundary face of
  \<open>s\<close> has an entry, it returns the first boundary face, in the order of the boundary,
  whose entry is \<open>{s}\<close> (one element, and that element is \<open>s\<close>), and the empty simplex
  when there is none.
\<close>

theorem getFreeFace_spec:
  assumes "fmlookup cofaces s = Some cs"
  shows "(cs \<noteq> {} \<longrightarrow> getFreeFace cofaces s = Inr []) \<and>
         (cs = {} \<and> (\<forall>f \<in> set (boundary s). f \<in> fmdom' cofaces) \<longrightarrow>
            getFreeFace cofaces s =
              Inr (case find (\<lambda>f. fmlookup cofaces f = Some {s}) (boundary s) of
                     None \<Rightarrow> [] | Some f \<Rightarrow> f))"
proof (intro conjI impI)
  assume "cs \<noteq> {}"
  with assms show "getFreeFace cofaces s = Inr []"
    by (simp add: getFreeFace_def isPrincipal_def coface_at_def)
next
  assume "cs = {} \<and> (\<forall>f \<in> set (boundary s). f \<in> fmdom' cofaces)"
  then show "getFreeFace cofaces s =
      Inr (case find (\<lambda>f. fmlookup cofaces f = Some {s}) (boundary s) of None \<Rightarrow> [] | Some f \<Rightarrow> f)"
    using getFreeFace_find[OF assms] by simp
qed

theorem getFreeFace_spec_witness:
  "fmlookup (buildCofaceMap triangle) [2, 1, 0] = Some {} \<and>
   getFreeFace (buildCofaceMap triangle) [2, 1, 0] = Inr [1, 0] \<and>
   fmlookup (buildCofaceMap triangle) [1, 0] = Some {[2, 1, 0]} \<and>
   getFreeFace (buildCofaceMap triangle) [1, 0] = Inr []"
proof -
  have a: "fmlookup (buildCofaceMap triangle) [2, 1, 0] = Some {}"
    by (simp add: buildCofaceMap_lookup immediate_cofaces_def boundary_def triangle_eq)
  have b: "fmlookup (buildCofaceMap triangle) [1, 0] = Some {[2, 1, 0]}"
    by (simp add: buildCofaceMap_lookup immediate_cofaces_def boundary_def triangle_eq)
  have dom: "\<forall>f \<in> set (boundary [2, 1, 0]). f \<in> fmdom' (buildCofaceMap triangle)"
    by (simp add: fmlookup_dom'_iff buildCofaceMap_lookup boundary_def triangle_eq)
  have first: "find (\<lambda>f. fmlookup (buildCofaceMap triangle) f = Some {[2, 1, 0]}) (boundary [2, 1, 0])
      = Some [1, 0]"
    by (simp add: buildCofaceMap_lookup immediate_cofaces_def boundary_def triangle_eq)
  from getFreeFace_spec[OF a] dom first
  have "getFreeFace (buildCofaceMap triangle) [2, 1, 0] = Inr [1, 0]" by simp
  moreover from getFreeFace_spec[OF b]
  have "getFreeFace (buildCofaceMap triangle) [1, 0] = Inr []" by simp
  ultimately show ?thesis using a b by simp
qed

text \<open>
  Claim C6: the loop of \<open>spine\<close> terminates, on every face-closed complex, with a result
  and no error. In every state of the run, the admissible map is empty exactly when a full
  rebuild over the current complex and coface map is empty; the loop then returns the
  current complex; otherwise the pass succeeds and removes exactly two simplices.
\<close>

theorem spine_terminates:
  assumes "distinct K" and "face_closed K" and "reachable sel K st"
  shows "(admissible_of st = [] \<longleftrightarrow>
            getPrincipalFaces (cofaces_of st) (complex_of st) = Inr []) \<and>
         (admissible_of st = [] \<longrightarrow> spine sel K = Inr (complex_of st)) \<and>
         (admissible_of st \<noteq> [] \<longrightarrow>
            (\<exists>st'. spine_body sel st = Inr st' \<and>
                   length (complex_of st') + 2 = length (complex_of st))) \<and>
         (\<exists>L. spine sel K = Inr L)"
proof -
  have inv: "spine_inv st" using assms by (rule reachable_inv)
  have "spine_loop sel st = spine sel K" using assms(3) by (rule reachable_loop)
  moreover obtain L where "spine sel K = Inr L" using spine_final[OF assms(1,2), of sel] by blast
  ultimately show ?thesis
    using rebuild_empty_iff[OF inv] spine_body_preserves[OF inv, of sel]
    by auto
qed

theorem spine_terminates_witness:
  "distinct triangle \<and> face_closed triangle \<and> reachable oldest_first triangle triangle_start \<and>
   admissible_of triangle_start \<noteq> [] \<and>
   getPrincipalFaces (cofaces_of triangle_start) (complex_of triangle_start) \<noteq> Inr [] \<and>
   (\<exists>st'. spine_body oldest_first triangle_start = Inr st' \<and>
      length (complex_of st') + 2 = length (complex_of triangle_start)) \<and>
   (\<exists>L. spine oldest_first triangle = Inr L)"
proof -
  have ne: "admissible_of triangle_start \<noteq> []" by (simp add: triangle_start_def)
  from spine_terminates[OF distinct_triangle face_closed_triangle triangle_start_reachable,
      of oldest_first] ne
  show ?thesis
    using distinct_triangle face_closed_triangle triangle_start_reachable[of oldest_first]
    by simp
qed

text \<open>
  Claim C7: on the full triangle with its faces, 7 simplices, \<open>spine\<close> returns a single
  vertex, under every policy.
\<close>

theorem spine_triangle:
  "length triangle = 7 \<and> (\<exists>v. spine sel triangle = Inr [[v]])"
  by (simp add: triangle_spine) (simp add: triangle_eq)

theorem spine_triangle_witness:
  "length triangle = 7 \<and> spine oldest_first triangle = Inr [[2]]"
  using spine_triangle[of oldest_first] triangle_spine[of oldest_first] by simp

text \<open>
  Claim C8: on the hollow triangle, 6 simplices, every vertex has two cofaces, there is no
  admissible pair, and \<open>spine\<close> returns the input unchanged.
\<close>

theorem spine_hollow_triangle:
  "spine sel hollow_triangle = Inr hollow_triangle \<and> length hollow_triangle = 6 \<and>
   getPrincipalFaces (buildCofaceMap hollow_triangle) hollow_triangle = Inr [] \<and>
   (\<forall>s t. \<not> admissible_pair hollow_triangle s t) \<and>
   map (fmlookup (buildCofaceMap hollow_triangle)) [[0], [1], [2]] =
     [Some {[1, 0], [2, 0]}, Some {[1, 0], [2, 1]}, Some {[2, 0], [2, 1]}]"
proof -
  have "spine sel hollow_triangle = Inr hollow_triangle"
    by (simp add: spine_def hollow_triangle_rebuild)
  moreover have "length hollow_triangle = 6" by (simp add: hollow_triangle_eq)
  moreover have "\<forall>s t. \<not> admissible_pair hollow_triangle s t"
    using no_admissible_pair[OF face_closed_hollow_triangle hollow_triangle_rebuild] by blast
  ultimately show ?thesis using hollow_triangle_rebuild hollow_triangle_cofaces by simp
qed

theorem spine_hollow_triangle_witness:
  "spine newest_first hollow_triangle = Inr hollow_triangle \<and> length hollow_triangle = 6"
  using spine_hollow_triangle[of newest_first] by simp




text \<open>
  Claim C10: in every state of a run on a face-closed complex, every pair \<open>(s, t)\<close> of
  the admissible map, so also the selected one, consists of members of the working
  complex, with the entry of \<open>s\<close> in the coface map empty and the entry of \<open>t\<close> equal
  to \<open>{s}\<close>. The pass through the body does not throw, \<open>s\<close> is not a face of any
  member, \<open>t\<close> is not a face of any member left after the removal of \<open>s\<close>, and
  \<open>spine\<close> returns a complex.
\<close>

theorem admissible_pairs_live:
  assumes "distinct K" and "face_closed K" and "reachable sel K st"
    and "(s, t) \<in> set (admissible_of st)"
  shows "s \<in> set (complex_of st) \<and> t \<in> set (complex_of st) \<and>
         fmlookup (cofaces_of st) s = Some {} \<and> fmlookup (cofaces_of st) t = Some {s} \<and>
         (\<exists>st'. spine_body sel st = Inr st') \<and>
         (\<forall>x \<in> set (complex_of st). s \<notin> set (boundary x)) \<and>
         (\<forall>x \<in> set (remove_without_validation s (complex_of st)). t \<notin> set (boundary x)) \<and>
         (\<exists>L. spine sel K = Inr L)"
proof -
  have inv: "spine_inv st" using assms(1-3) by (rule reachable_inv)
  then have valid: "admissible_valid (complex_of st) (cofaces_of st) (admissible_of st)"
    and cons: "coface_consistent (complex_of st) (cofaces_of st)"
    by (simp_all add: spine_inv_def)
  from valid assms(4) have live: "s \<in> set (complex_of st)" "t \<in> set (complex_of st)"
    "fmlookup (cofaces_of st) s = Some {}" "fmlookup (cofaces_of st) t = Some {s}"
    by (auto simp: admissible_valid_def)
  with cons have ic: "immediate_cofaces (complex_of st) s = {}"
    "immediate_cofaces (complex_of st) t = {s}"
    by (auto simp: coface_consistent_def)
  have "\<forall>x \<in> set (complex_of st). s \<notin> set (boundary x)"
    using ic(1) by (auto simp: immediate_cofaces_def)
  moreover have "\<forall>x \<in> set (remove_without_validation s (complex_of st)). t \<notin> set (boundary x)"
  proof
    fix x assume "x \<in> set (remove_without_validation s (complex_of st))"
    moreover have "distinct (complex_of st)" using inv by (simp add: spine_inv_def)
    ultimately have "x \<in> set (complex_of st)" "x \<noteq> s"
      by (auto simp: remove_without_validation_def)
    then show "t \<notin> set (boundary x)" using ic(2) by (auto simp: immediate_cofaces_def)
  qed
  moreover have "admissible_of st \<noteq> []" using assms(4) by auto
  then have "\<exists>st'. spine_body sel st = Inr st'"
    using spine_body_preserves[OF inv, of sel] by blast
  moreover have "\<exists>L. spine sel K = Inr L" using spine_final[OF assms(1,2), of sel] by blast
  ultimately show ?thesis using live by simp
qed

theorem admissible_pairs_live_witness:
  "distinct triangle \<and> face_closed triangle \<and> reachable oldest_first triangle triangle_start \<and>
   ([2, 1, 0], [1, 0]) \<in> set (admissible_of triangle_start) \<and>
   fmlookup (cofaces_of triangle_start) [2, 1, 0] = Some {} \<and>
   fmlookup (cofaces_of triangle_start) [1, 0] = Some {[2, 1, 0]} \<and>
   (\<exists>st'. spine_body oldest_first triangle_start = Inr st')"
proof -
  have m: "([2, 1, 0], [1, 0]) \<in> set (admissible_of triangle_start)"
    by (simp add: triangle_start_def)
  from admissible_pairs_live[OF distinct_triangle face_closed_triangle triangle_start_reachable m,
      of oldest_first]
  show ?thesis
    using distinct_triangle face_closed_triangle triangle_start_reachable[of oldest_first] m
    by simp
qed

end
